theory Spec2Isabelle
  imports Main "HOL-Library.Word" "HOL-Library.Multiset"
begin

section \<open>Data model of the thread pool\<close>

text \<open>
  The embedding follows \<^verbatim>\<open>threadpool.h\<close> and the implementation file of the pool.
  Every critical section of the program (the code a thread runs between acquiring the
  queue mutex \<^verbatim>\<open>taskQueMtx_\<close> and releasing it or suspending in a condition wait) is one
  function on the state; the interleaving of threads is the order in which those
  functions are applied.

  C++ \<^verbatim>\<open>int\<close> and \<^verbatim>\<open>std::atomic_int\<close> are 32-bit two's complement words: \<open>+\<close> and \<open>-\<close> wrap,
  comparisons are the signed ones (\<open><s\<close>, \<open>\<le>s\<close>). \<^verbatim>\<open>size_t\<close> is taken to be 64 bits wide.
  Member names are written without their trailing underscore (\<open>taskQue\<close> is \<^verbatim>\<open>taskQue_\<close>).
\<close>

type_synonym int32 = "32 word"
type_synonym size_t = "64 word"

datatype PoolMode = MODE_FIXED | MODE_CACHED

text \<open>
  A \<^verbatim>\<open>Thread\<close> object holds its id and the thread function; the pool only ever stores
  \<^verbatim>\<open>ThreadPool::threadFunc\<close> bound to itself there, so the function is not a field of the model.
\<close>

record Thread =
  threadId :: int32

text \<open>
  A \<^verbatim>\<open>std::packaged_task<Rtype()>\<close> with its shared state: the stored callable and the
  value of the future, \<open>None\<close> until the task has been invoked. Packaged tasks live in a
  store and are referred to by address, as the \<^verbatim>\<open>shared_ptr\<close> captured by the queued lambda
  and the \<^verbatim>\<open>future\<close> returned to the caller both refer to the same object.
\<close>

type_synonym addr = nat

record 'r packaged_task =
  fn :: "unit \<Rightarrow> 'r"
  shared :: "'r option"

datatype condvar = notFull | notEmpty | exitCond

text \<open>Console output, by message; the thread-id part of a message is left out.\<close>

datatype message =
    QueueFullTimeout   \<comment> \<open>"The task queue is full and waiting for more than one second. ..."\<close>
  | CreatingThread     \<comment> \<open>"Creating a new thread..."\<close>
  | NotCachedMode      \<comment> \<open>"The thread pool mode is not Cached mode."\<close>
  | TryGetTask         \<comment> \<open>"tid: ..." trying to get a task\<close>
  | GotTask            \<comment> \<open>"tid: ..." got a task\<close>
  | ThreadExit         \<comment> \<open>"thread id: ... Exit."\<close>

datatype event = Cout message | Cerr message | NotifyAll condvar

text \<open>
  The control point of an operating-system thread running \<^verbatim>\<open>threadFunc\<close>:
  \<open>Entry\<close> before the first statement, \<open>Top\<close> about to lock the mutex at the head of the
  outer loop, \<open>TimedWait\<close> suspended in \<^verbatim>\<open>notEmpty_.wait_for\<close>, \<open>Wait\<close> suspended in
  \<^verbatim>\<open>notEmpty_.wait\<close>, \<open>Exec a\<close> outside the lock with the claimed task \<open>a\<close>, \<open>Done\<close> returned.
\<close>

datatype pc = Entry | Top | TimedWait | Wait | Exec addr | Done

record worker =
  threadid :: int32     \<comment> \<open>the argument of \<^verbatim>\<open>threadFunc\<close>\<close>
  lastTime :: int       \<comment> \<open>nanoseconds of the high-resolution clock\<close>
  at_pc :: pc

record 'r state =
  \<comment> \<open>fields of \<^verbatim>\<open>ThreadPool\<close>\<close>
  threads :: "int32 \<rightharpoonup> Thread"
  initThreadSize :: int32
  threadSizeThreshHold :: int32
  curThreadSize :: int32
  idleThreadSize :: int32
  taskQue :: "addr list"
  taskSize :: int32
  taskQueMaxThreshHold :: int32
  poolMode :: PoolMode
  isPoolRunning :: bool
  \<comment> \<open>the static member \<^verbatim>\<open>Thread::generateId_\<close>\<close>
  generateId :: int32
  \<comment> \<open>the packaged tasks allocated so far and the next free address\<close>
  heap :: "addr \<rightharpoonup> 'r packaged_task"
  brk :: addr
  \<comment> \<open>the detached operating-system threads, in the order they were launched\<close>
  procs :: "worker list"
  \<comment> \<open>everything written to the console or signalled on a condition variable\<close>
  trace :: "event list"

definition TASK_MAX_THRESHHOLD :: int32 where
  "TASK_MAX_THRESHHOLD = 2147483647"

definition THREAD_MAX_THRESHHOLD :: int32 where
  "THREAD_MAX_THRESHHOLD = 1024"

definition THREAD_MAX_IDLE_TIME :: int where
  "THREAD_MAX_IDLE_TIME = 60"

definition emit :: "event \<Rightarrow> 'r state \<Rightarrow> 'r state" where
  "emit e s = s\<lparr>trace := trace s @ [e]\<rparr>"

subsection \<open>Thread\<close>

text \<open>
  \<^verbatim>\<open>Thread::Thread\<close>: \<^verbatim>\<open>threadId_(generateId_++)\<close>. The counter is a plain \<^verbatim>\<open>int\<close>, whose overflow C++
  leaves undefined; in the model it wraps around like the atomic counters.
\<close>

definition Thread_ctor :: "'r state \<Rightarrow> Thread \<times> 'r state" where
  "Thread_ctor s =
     (\<lparr>threadId = generateId s\<rparr>, s\<lparr>generateId := generateId s + 1\<rparr>)"

text \<open>
  \<^verbatim>\<open>Thread::start\<close>: a detached thread begins to run \<^verbatim>\<open>func_(threadId_)\<close>. Its local variable
  \<^verbatim>\<open>lastTime\<close> has no value before the first statement of \<^verbatim>\<open>threadFunc\<close>; the model starts it at 0.
\<close>

definition Thread_start :: "Thread \<Rightarrow> 'r state \<Rightarrow> 'r state" where
  "Thread_start t s =
     s\<lparr>procs := procs s @ [\<lparr>threadid = threadId t, lastTime = 0, at_pc = Entry\<rparr>]\<rparr>"

text \<open>\<^verbatim>\<open>unordered_map::emplace\<close> inserts only when the key is absent.\<close>

definition emplace :: "int32 \<Rightarrow> Thread \<Rightarrow> (int32 \<rightharpoonup> Thread) \<Rightarrow> (int32 \<rightharpoonup> Thread)" where
  "emplace k t m = (case m k of None \<Rightarrow> m(k \<mapsto> t) | Some _ \<Rightarrow> m)"

subsection \<open>Construction and configuration\<close>

definition ThreadPool_ctor :: "'r state" where
  "ThreadPool_ctor =
     \<lparr>threads = Map.empty,
      initThreadSize = 0,
      threadSizeThreshHold = THREAD_MAX_THRESHHOLD,
      curThreadSize = 0,
      idleThreadSize = 0,
      taskQue = [],
      taskSize = 0,
      taskQueMaxThreshHold = TASK_MAX_THRESHHOLD,
      poolMode = MODE_FIXED,
      isPoolRunning = False,
      generateId = 0,
      heap = Map.empty,
      brk = 0,
      procs = [],
      trace = []\<rparr>"

definition checkPoolRunningState :: "'r state \<Rightarrow> bool" where
  "checkPoolRunningState s = isPoolRunning s"

definition setMode :: "'r state \<Rightarrow> PoolMode \<Rightarrow> 'r state" where
  "setMode s mode =
     (if checkPoolRunningState s then s else s\<lparr>poolMode := mode\<rparr>)"

definition setTaskQueMaxThreshHold :: "'r state \<Rightarrow> int32 \<Rightarrow> 'r state" where
  "setTaskQueMaxThreshHold s threshhold =
     (if checkPoolRunningState s then s else s\<lparr>taskQueMaxThreshHold := threshhold\<rparr>)"

definition setThreadSizeThreshHold :: "'r state \<Rightarrow> int32 \<Rightarrow> 'r state" where
  "setThreadSizeThreshHold s threshhold =
     (if checkPoolRunningState s then s
      else if poolMode s = MODE_CACHED then s\<lparr>threadSizeThreshHold := threshhold\<rparr>
      else emit (Cerr NotCachedMode) s)"

subsection \<open>Packaged tasks\<close>

text \<open>\<^verbatim>\<open>std::make_shared<std::packaged_task<Rtype()>>(...)\<close>: a new object at a fresh address.\<close>

definition make_shared :: "'r packaged_task \<Rightarrow> 'r state \<Rightarrow> addr \<times> 'r state" where
  "make_shared t s =
     (brk s, s\<lparr>heap := (heap s)(brk s \<mapsto> t), brk := Suc (brk s)\<rparr>)"

text \<open>
  \<^verbatim>\<open>(*task)()\<close>: runs the stored callable and makes its value the value of the future.
  (A packaged task that was already invoked throws instead; its shared state stays.)
  Callables are functions that return a value; one that throws is not modelled.
\<close>

definition invoke :: "addr \<Rightarrow> 'r state \<Rightarrow> 'r state" where
  "invoke a s =
     (case heap s a of
        None \<Rightarrow> s
      | Some t \<Rightarrow>
          (case shared t of
             None \<Rightarrow> s\<lparr>heap := (heap s)(a \<mapsto> t\<lparr>shared := Some (fn t ())\<rparr>)\<rparr>
           | Some _ \<Rightarrow> s))"

text \<open>What \<^verbatim>\<open>future::get\<close> would find at this moment.\<close>

definition future_value :: "'r state \<Rightarrow> addr \<Rightarrow> 'r option" where
  "future_value s a = (case heap s a of None \<Rightarrow> None | Some t \<Rightarrow> shared t)"

subsection \<open>Submission\<close>

datatype error = NullDeref

text \<open>
  \<^verbatim>\<open>threads_[k]->start()\<close>: \<^verbatim>\<open>operator[]\<close> on a missing key yields a null \<^verbatim>\<open>unique_ptr\<close>, and the
  call through it has no defined behaviour.
\<close>

definition start_at :: "int32 \<Rightarrow> 'r state \<Rightarrow> error + 'r state" where
  "start_at k s =
     (case threads s k of None \<Rightarrow> Inl NullDeref | Some t \<Rightarrow> Inr (Thread_start t s))"

text \<open>
  The predicate of \<^verbatim>\<open>notFull_.wait_for\<close>:
  \<^verbatim>\<open>taskQue_.size() < (size_t)taskQueMaxThreshHold_\<close>. The cast sign-extends.
\<close>

definition queue_not_full :: "'r state \<Rightarrow> bool" where
  "queue_not_full s \<longleftrightarrow>
     length (taskQue s) < unat (scast (taskQueMaxThreshHold s) :: size_t)"

text \<open>
  \<^verbatim>\<open>submitTask\<close>, from the moment \<^verbatim>\<open>wait_for\<close> returns with the lock held to the return of
  the function. \<^verbatim>\<open>wait_for\<close> returns the value its predicate has in that state: \<open>False\<close> is
  the timeout with the queue still full. The packaged task of the caller is allocated
  before the lock is taken, which no other thread can observe. The result is the address
  of the packaged task the returned future belongs to. \<open>dflt\<close> is the value of \<^verbatim>\<open>Rtype()\<close>.
\<close>

definition submitTask ::
    "'r state \<Rightarrow> (unit \<Rightarrow> 'r) \<Rightarrow> 'r \<Rightarrow> error + (addr \<times> 'r state)" where
  "submitTask s0 func dflt =
     (let (task, s1) = make_shared \<lparr>fn = func, shared = None\<rparr> s0;
          result = task
      in if \<not> queue_not_full s1 then
           (let s2 = emit (Cerr QueueFullTimeout) s1;
                (task', s3) = make_shared \<lparr>fn = (\<lambda>_. dflt), shared = None\<rparr> s2;
                s4 = invoke task' s3
            in Inr (task', s4))
         else
           (let s2 = s1\<lparr>taskQue := taskQue s1 @ [task]\<rparr>;
                s3 = s2\<lparr>taskSize := taskSize s2 + 1\<rparr>;
                s4 = emit (NotifyAll notEmpty) s3
            in if poolMode s4 = MODE_CACHED
                  \<and> idleThreadSize s4 <s taskSize s4
                  \<and> curThreadSize s4 <s threadSizeThreshHold s4
               then
                 (let s5 = emit (Cout CreatingThread) s4;
                      (ptr, s6) = Thread_ctor s5;
                      tid = threadId ptr;
                      s7 = s6\<lparr>threads := emplace tid ptr (threads s6)\<rparr>
                  in case start_at tid s7 of
                       Inl e \<Rightarrow> Inl e
                     | Inr s8 \<Rightarrow>
                         (let s9 = s8\<lparr>curThreadSize := curThreadSize s8 + 1\<rparr>;
                              s10 = s9\<lparr>idleThreadSize := idleThreadSize s9 + 1\<rparr>
                          in Inr (result, s10)))
               else Inr (result, s4)))"

subsection \<open>Start\<close>

lemma sint32_range: "- 2147483648 \<le> sint (x::int32) \<and> sint x \<le> 2147483647"
  using sint_ge [of x] sint_lt [of x] by simp

lemma sint_inc:
  assumes "sint (i::int32) < 2147483647"
  shows "sint (i + 1) = sint i + 1"
proof -
  have "sint (i + 1) = signed_take_bit 31 (sint i + 1)"
    by (simp add: sint_word_ariths)
  also have "\<dots> = sint i + 1"
    using assms sint32_range [of i] by (intro signed_take_bit_int_eq_self) simp_all
  finally show ?thesis .
qed

lemma sint_dec:
  assumes "- 2147483648 < sint (i::int32)"
  shows "sint (i - 1) = sint i - 1"
proof -
  have "sint (i - 1) = signed_take_bit 31 (sint i - 1)"
    by (simp add: sint_word_ariths)
  also have "\<dots> = sint i - 1"
    using assms sint32_range [of i] by (intro signed_take_bit_int_eq_self) simp_all
  finally show ?thesis .
qed

lemma sless_inc: "(i::int32) <s n \<Longrightarrow> sint (i + 1) = sint i + 1"
  using sint32_range [of n] by (intro sint_inc) (simp add: word_sless_alt)

text \<open>The first loop of \<^verbatim>\<open>start\<close>, from loop index \<open>i\<close>.\<close>

function start_construct :: "int32 \<Rightarrow> 'r state \<Rightarrow> 'r state" where
  "start_construct i s =
     (if i <s initThreadSize s then
        (let (ptr, s1) = Thread_ctor s;
             tid = threadId ptr;
             s2 = s1\<lparr>threads := emplace tid ptr (threads s1)\<rparr>
         in start_construct (i + 1) s2)
      else s)"
  by pat_completeness auto
termination
  by (relation "measure (\<lambda>(i, s). nat (sint (initThreadSize s) - sint i))")
     (auto simp: Thread_ctor_def sless_inc word_sless_alt)

declare start_construct.simps [simp del]

text \<open>The second loop of \<^verbatim>\<open>start\<close>, from loop index \<open>i\<close>: \<^verbatim>\<open>threads_[i]->start()\<close>.\<close>

function start_launch :: "int32 \<Rightarrow> 'r state \<Rightarrow> error + 'r state" where
  "start_launch i s =
     (if i <s initThreadSize s then
        (case start_at i s of
           Inl e \<Rightarrow> Inl e
         | Inr s1 \<Rightarrow> start_launch (i + 1) s1)
      else Inr s)"
  by pat_completeness auto
termination
  by (relation "measure (\<lambda>(i, s). nat (sint (initThreadSize s) - sint i))")
     (auto simp: start_at_def Thread_start_def sless_inc word_sless_alt split: option.splits)

declare start_launch.simps [simp del]

definition start :: "'r state \<Rightarrow> int32 \<Rightarrow> error + 'r state" where
  "start s0 initThreadSize' =
     (let s1 = s0\<lparr>isPoolRunning := True\<rparr>;
          s2 = s1\<lparr>initThreadSize := initThreadSize'\<rparr>;
          s3 = s2\<lparr>curThreadSize := initThreadSize'\<rparr>;
          s4 = s3\<lparr>idleThreadSize := initThreadSize'\<rparr>;
          s5 = start_construct 0 s4
      in start_launch 0 s5)"

text \<open>
  The default argument of \<^verbatim>\<open>start\<close> is \<^verbatim>\<open>std::thread::hardware_concurrency()\<close>, an
  \<^verbatim>\<open>unsigned int\<close> converted to \<^verbatim>\<open>int\<close>; \<open>hardware_concurrency\<close> is what the host reports.
\<close>

definition start_default :: "'r state \<Rightarrow> 32 word \<Rightarrow> error + 'r state" where
  "start_default s hardware_concurrency = start s hardware_concurrency"

subsection \<open>The worker loop\<close>

text \<open>
  \<^verbatim>\<open>std::chrono::duration_cast<std::chrono::seconds>\<close> of a number of nanoseconds:
  integer division that truncates towards zero.
\<close>

definition duration_cast_seconds :: "int \<Rightarrow> int" where
  "duration_cast_seconds d =
     (if d < 0 then - ((- d) div 1000000000) else d div 1000000000)"

text \<open>Lines 150 to 153 of the implementation: the exit of a worker at shutdown.\<close>

definition exit_shutdown :: "worker \<Rightarrow> 'r state \<Rightarrow> worker \<times> 'r state" where
  "exit_shutdown w s =
     (let s1 = s\<lparr>threads := (threads s)(threadid w := None)\<rparr>;
          s2 = emit (Cout ThreadExit) s1;
          s3 = emit (NotifyAll exitCond) s2
      in (w\<lparr>at_pc := Done\<rparr>, s3))"

text \<open>Lines 170 to 175: the reclamation of an idle worker.\<close>

definition reclaim :: "worker \<Rightarrow> 'r state \<Rightarrow> worker \<times> 'r state" where
  "reclaim w s =
     (let s1 = s\<lparr>threads := (threads s)(threadid w := None)\<rparr>;
          s2 = s1\<lparr>curThreadSize := curThreadSize s1 - 1\<rparr>;
          s3 = s2\<lparr>idleThreadSize := idleThreadSize s2 - 1\<rparr>;
          s4 = emit (Cout ThreadExit) s3
      in (w\<lparr>at_pc := Done\<rparr>, s4))"

text \<open>
  Lines 188 to 205: the claim of the front task. The code reaches it only with a
  non-empty queue; \<^verbatim>\<open>front\<close> and \<^verbatim>\<open>pop\<close> of an empty queue have no defined behaviour.
\<close>

definition claim :: "worker \<Rightarrow> 'r state \<Rightarrow> worker \<times> 'r state" where
  "claim w s =
     (case taskQue s of
        [] \<Rightarrow> (w, s)
      | task # rest \<Rightarrow>
          (let s1 = s\<lparr>idleThreadSize := idleThreadSize s - 1\<rparr>;
               s2 = emit (Cout GotTask) s1;
               s3 = s2\<lparr>taskQue := rest\<rparr>;
               s4 = s3\<lparr>taskSize := taskSize s3 - 1\<rparr>;
               s5 = (if 0 < length (taskQue s4) then emit (NotifyAll notEmpty) s4 else s4);
               s6 = emit (NotifyAll notFull) s5
           in (w\<lparr>at_pc := Exec task\<rparr>, s6)))"

text \<open>
  The loop \<^verbatim>\<open>while (taskQue_.size() == 0)\<close> of lines 145 to 184, run with the lock held
  until the thread returns, suspends in a wait or leaves the loop and claims a task.
\<close>

definition wait_loop :: "worker \<Rightarrow> 'r state \<Rightarrow> worker \<times> 'r state" where
  "wait_loop w s =
     (if length (taskQue s) = 0 then
        (if \<not> isPoolRunning s then exit_shutdown w s
         else if poolMode s = MODE_CACHED then (w\<lparr>at_pc := TimedWait\<rparr>, s)
         else (w\<lparr>at_pc := Wait\<rparr>, s))
      else claim w s)"

text \<open>
  Lines 159 to 177, when \<^verbatim>\<open>notEmpty_.wait_for\<close> returns with the lock held again:
  \<open>timeout\<close> tells whether it returned \<^verbatim>\<open>cv_status::timeout\<close>, \<open>now\<close> is the clock.
\<close>

definition wake_timed :: "bool \<Rightarrow> int \<Rightarrow> worker \<Rightarrow> 'r state \<Rightarrow> worker \<times> 'r state" where
  "wake_timed timeout now w s =
     (if timeout then
        (let dur = duration_cast_seconds (now - lastTime w)
         in if THREAD_MAX_IDLE_TIME \<le> dur \<and> initThreadSize s <s curThreadSize s
            then reclaim w s
            else wait_loop w s)
      else wait_loop w s)"

text \<open>Lines 208 to 216: the task runs outside the lock, then the counter and the clock.\<close>

definition finish :: "int \<Rightarrow> addr \<Rightarrow> worker \<Rightarrow> 'r state \<Rightarrow> worker \<times> 'r state" where
  "finish now task w s =
     (let s1 = invoke task s;
          s2 = s1\<lparr>idleThreadSize := idleThreadSize s1 + 1\<rparr>
      in (w\<lparr>lastTime := now, at_pc := Top\<rparr>, s2))"

text \<open>
  One step of a thread in \<^verbatim>\<open>threadFunc\<close>, from its control point to the next one.
  \<open>timeout\<close> and \<open>now\<close> are what the environment supplies: whether a timed wait ran out
  (a wait may also end by a notification or spuriously) and the reading of the clock.
\<close>

definition threadFunc :: "bool \<Rightarrow> int \<Rightarrow> worker \<Rightarrow> 'r state \<Rightarrow> worker \<times> 'r state" where
  "threadFunc timeout now w s =
     (case at_pc w of
        Entry \<Rightarrow> (w\<lparr>lastTime := now, at_pc := Top\<rparr>, s)
      | Top \<Rightarrow> wait_loop w (emit (Cout TryGetTask) s)
      | TimedWait \<Rightarrow> wake_timed timeout now w s
      | Wait \<Rightarrow> wait_loop w s
      | Exec task \<Rightarrow> finish now task w s
      | Done \<Rightarrow> (w, s))"

subsection \<open>Shutdown\<close>

text \<open>
  The destructor up to its wait: the flag, then \<^verbatim>\<open>notEmpty_.notify_all()\<close> under the lock.
  It returns once \<^verbatim>\<open>threads_.size() == 0\<close>.
\<close>

definition ThreadPool_dtor :: "'r state \<Rightarrow> 'r state" where
  "ThreadPool_dtor s =
     (let s1 = s\<lparr>isPoolRunning := False\<rparr>
      in emit (NotifyAll notEmpty) s1)"

definition dtor_returns :: "'r state \<Rightarrow> bool" where
  "dtor_returns s \<longleftrightarrow> threads s = Map.empty"

subsection \<open>The program as a transition system\<close>

datatype 'r action =
    SetMode PoolMode
  | SetTaskQueMaxThreshHold int32
  | SetThreadSizeThreshHold int32
  | Start int32
  | SubmitTask "unit \<Rightarrow> 'r" 'r
  | Worker nat bool int      \<comment> \<open>the thread at this index of \<open>procs\<close>, the timeout flag, the clock\<close>
  | Stop

definition step :: "'r state \<Rightarrow> 'r action \<Rightarrow> error + 'r state" where
  "step s a =
     (case a of
        SetMode m \<Rightarrow> Inr (setMode s m)
      | SetTaskQueMaxThreshHold n \<Rightarrow> Inr (setTaskQueMaxThreshHold s n)
      | SetThreadSizeThreshHold n \<Rightarrow> Inr (setThreadSizeThreshHold s n)
      | Start n \<Rightarrow> start s n
      | SubmitTask func dflt \<Rightarrow>
          (case submitTask s func dflt of Inl e \<Rightarrow> Inl e | Inr (_, s') \<Rightarrow> Inr s')
      | Worker i timeout now \<Rightarrow>
          (if i < length (procs s) then
             (let (w', s') = threadFunc timeout now (procs s ! i) s
              in Inr (s'\<lparr>procs := (procs s')[i := w']\<rparr>))
           else Inr s)
      | Stop \<Rightarrow> Inr (ThreadPool_dtor s))"

fun run :: "'r state \<Rightarrow> 'r action list \<Rightarrow> error + 'r state" where
  "run s [] = Inr s"
| "run s (a # as) = (case step s a of Inl e \<Rightarrow> Inl e | Inr s' \<Rightarrow> run s' as)"

text \<open>
  The number of iterations of \<^verbatim>\<open>for (; i < n; i++)\<close> and the ids that \<open>m\<close> successive
  constructions hand out from counter value \<open>g\<close>.
\<close>

definition loop_count :: "int32 \<Rightarrow> int32 \<Rightarrow> nat" where
  "loop_count i n = nat (sint n - sint i)"

definition ids_from :: "int32 \<Rightarrow> nat \<Rightarrow> int32 list" where
  "ids_from g m = map (\<lambda>j. g + of_nat j) [0..<m]"

subsection \<open>Concrete pools\<close>

text \<open>
  A fixed pool of one worker, started, with two tasks submitted and the worker at the head
  of its loop; and the same pool after the worker has served both tasks while a third one
  was submitted.
\<close>

definition two_queued :: "nat state" where
  "two_queued =
     ThreadPool_ctor
       \<lparr>threads := [0 \<mapsto> \<lparr>threadId = 0\<rparr>],
        initThreadSize := 1, curThreadSize := 1, idleThreadSize := 1,
        taskQue := [0, 1], taskSize := 2,
        isPoolRunning := True, generateId := 1,
        heap := [0 \<mapsto> \<lparr>fn = \<lambda>_. 5, shared = None\<rparr>, 1 \<mapsto> \<lparr>fn = \<lambda>_. 6, shared = None\<rparr>],
        brk := 2,
        procs := [\<lparr>threadid = 0, lastTime = 10, at_pc = Top\<rparr>],
        trace := [NotifyAll notEmpty, NotifyAll notEmpty]\<rparr>"

definition two_served :: "nat state" where
  "two_served =
     two_queued
       \<lparr>idleThreadSize := 0,
        taskQue := [2], taskSize := 1,
        heap := [0 \<mapsto> \<lparr>fn = \<lambda>_. 5, shared = Some 5\<rparr>, 1 \<mapsto> \<lparr>fn = \<lambda>_. 6, shared = None\<rparr>,
                 2 \<mapsto> \<lparr>fn = \<lambda>_. 7, shared = None\<rparr>],
        brk := 3,
        procs := [\<lparr>threadid = 0, lastTime = 12, at_pc = Exec 1\<rparr>],
        trace := [NotifyAll notEmpty, NotifyAll notEmpty, Cout TryGetTask,
                  Cout GotTask, NotifyAll notEmpty, NotifyAll notFull,
                  NotifyAll notEmpty, Cout TryGetTask, Cout GotTask,
                  NotifyAll notEmpty, NotifyAll notFull]\<rparr>"

text \<open>
  A cached pool of one worker, started, after its first submission; and a cached pool
  that has grown to two workers, both idle in their timed wait with an empty queue.
\<close>

definition cached_one :: "nat state" where
  "cached_one =
     ThreadPool_ctor
       \<lparr>threads := [0 \<mapsto> \<lparr>threadId = 0\<rparr>],
        initThreadSize := 1, curThreadSize := 1, idleThreadSize := 1,
        taskQue := [0], taskSize := 1,
        poolMode := MODE_CACHED,
        isPoolRunning := True, generateId := 1,
        heap := [0 \<mapsto> \<lparr>fn = \<lambda>_. 5, shared = None\<rparr>],
        brk := 1,
        procs := [\<lparr>threadid = 0, lastTime = 0, at_pc = Entry\<rparr>],
        trace := [NotifyAll notEmpty]\<rparr>"

definition cached_idle :: "nat state" where
  "cached_idle =
     ThreadPool_ctor
       \<lparr>threads := [0 \<mapsto> \<lparr>threadId = 0\<rparr>, 1 \<mapsto> \<lparr>threadId = 1\<rparr>],
        initThreadSize := 1, curThreadSize := 2, idleThreadSize := 2,
        poolMode := MODE_CACHED,
        isPoolRunning := True, generateId := 2,
        heap := [0 \<mapsto> \<lparr>fn = \<lambda>_. 5, shared = Some 5\<rparr>, 1 \<mapsto> \<lparr>fn = \<lambda>_. 6, shared = Some 6\<rparr>],
        brk := 2,
        procs := [\<lparr>threadid = 0, lastTime = 50, at_pc = TimedWait\<rparr>,
                  \<lparr>threadid = 1, lastTime = 100, at_pc = TimedWait\<rparr>],
        trace := [NotifyAll notEmpty, NotifyAll notEmpty, Cout CreatingThread,
                  Cout TryGetTask, Cout GotTask, NotifyAll notEmpty,
                  NotifyAll notFull, Cout TryGetTask, Cout GotTask,
                  NotifyAll notFull, Cout TryGetTask, Cout TryGetTask]\<rparr>"

text \<open>
  A fixed pool of one worker with a queue limit of one and one task queued; the same pool
  after a second submission was rejected; and after the worker has then run the queued
  task and gone to wait.
\<close>

definition full_one :: "nat state" where
  "full_one =
     ThreadPool_ctor
       \<lparr>threads := [0 \<mapsto> \<lparr>threadId = 0\<rparr>],
        initThreadSize := 1, curThreadSize := 1, idleThreadSize := 1,
        taskQue := [0], taskSize := 1, taskQueMaxThreshHold := 1,
        isPoolRunning := True, generateId := 1,
        heap := [0 \<mapsto> \<lparr>fn = \<lambda>_. 5, shared = None\<rparr>],
        brk := 1,
        procs := [\<lparr>threadid = 0, lastTime = 0, at_pc = Entry\<rparr>],
        trace := [NotifyAll notEmpty]\<rparr>"

definition rejected_one :: "nat state" where
  "rejected_one =
     full_one
       \<lparr>heap := [0 \<mapsto> \<lparr>fn = \<lambda>_. 5, shared = None\<rparr>, 1 \<mapsto> \<lparr>fn = \<lambda>_. 6, shared = None\<rparr>,
                 2 \<mapsto> \<lparr>fn = \<lambda>_. 0, shared = Some 0\<rparr>],
        brk := 3,
        trace := [NotifyAll notEmpty, Cerr QueueFullTimeout]\<rparr>"

definition drained_one :: "nat state" where
  "drained_one =
     rejected_one
       \<lparr>taskQue := [], taskSize := 0,
        heap := [0 \<mapsto> \<lparr>fn = \<lambda>_. 5, shared = Some 5\<rparr>, 1 \<mapsto> \<lparr>fn = \<lambda>_. 6, shared = None\<rparr>,
                 2 \<mapsto> \<lparr>fn = \<lambda>_. 0, shared = Some 0\<rparr>],
        procs := [\<lparr>threadid = 0, lastTime = 20, at_pc = Wait\<rparr>],
        trace := [NotifyAll notEmpty, Cerr QueueFullTimeout, Cout TryGetTask,
                  Cout GotTask, NotifyAll notFull, Cout TryGetTask]\<rparr>"

text \<open>
  A pool that was started with one worker and shut down, after the worker has left; and
  a cached pool that has not been started, after one submission, which made it launch a
  worker.
\<close>

definition stopped_one :: "nat state" where
  "stopped_one =
     ThreadPool_ctor
       \<lparr>initThreadSize := 1, curThreadSize := 1, idleThreadSize := 1,
        generateId := 1,
        procs := [\<lparr>threadid = 0, lastTime = 10, at_pc = Done\<rparr>],
        trace := [NotifyAll notEmpty, Cout TryGetTask, Cout ThreadExit, NotifyAll exitCond]\<rparr>"

definition prestart_spawned :: "nat state" where
  "prestart_spawned =
     ThreadPool_ctor
       \<lparr>threads := [0 \<mapsto> \<lparr>threadId = 0\<rparr>],
        curThreadSize := 1, idleThreadSize := 1,
        taskQue := [0], taskSize := 1,
        poolMode := MODE_CACHED, generateId := 1,
        heap := [0 \<mapsto> \<lparr>fn = \<lambda>_. 5, shared = None\<rparr>],
        brk := 1,
        procs := [\<lparr>threadid = 0, lastTime = 0, at_pc = Entry\<rparr>],
        trace := [NotifyAll notEmpty, Cout CreatingThread]\<rparr>"




definition restarted :: "nat state" where
  "restarted =
     prestart_spawned
       \<lparr>initThreadSize := 0, curThreadSize := 0, idleThreadSize := - 1,
        taskQue := [], taskSize := 0,
        isPoolRunning := True,
        procs := [\<lparr>threadid = 0, lastTime = 10, at_pc = Exec 0\<rparr>],
        trace := [NotifyAll notEmpty, Cout CreatingThread, Cout TryGetTask,
                  Cout GotTask, NotifyAll notFull]\<rparr>"







subsection \<open>Observations\<close>

text \<open>
  A task is pending when it sits in the queue or a worker holds it for execution. In a
  well-formed store every pending task has been allocated.
\<close>

definition task_pending :: "'r state \<Rightarrow> addr \<Rightarrow> bool" where
  "task_pending s a \<longleftrightarrow> a \<in> set (taskQue s) \<or> (\<exists>w \<in> set (procs s). at_pc w = Exec a)"

definition heap_wf :: "'r state \<Rightarrow> bool" where
  "heap_wf s \<longleftrightarrow> (\<forall>a. task_pending s a \<longrightarrow> a < brk s)"

text \<open>
  What one action does to the queue, read off the code: the address an accepted submission
  appends, and the task a thread takes with it when it leaves the lock for execution.
\<close>

definition step_enqueued :: "'r state \<Rightarrow> 'r action \<Rightarrow> addr list" where
  "step_enqueued s a =
     (case a of
        SubmitTask func dflt \<Rightarrow> (if queue_not_full s then [brk s] else [])
      | _ \<Rightarrow> [])"

definition step_claimed :: "'r state \<Rightarrow> 'r action \<Rightarrow> addr list" where
  "step_claimed s a =
     (case a of
        Worker i timeout now \<Rightarrow>
          (if i < length (procs s) then
             (case at_pc (procs s ! i) of
                Exec _ \<Rightarrow> []
              | _ \<Rightarrow>
                 (case at_pc (fst (threadFunc timeout now (procs s ! i) s)) of
                    Exec task \<Rightarrow> [task]
                  | _ \<Rightarrow> []))
           else [])
      | _ \<Rightarrow> [])"

fun enqueued :: "'r state \<Rightarrow> 'r action list \<Rightarrow> addr list" where
  "enqueued s [] = []"
| "enqueued s (a # as) =
     step_enqueued s a @ (case step s a of Inl _ \<Rightarrow> [] | Inr s' \<Rightarrow> enqueued s' as)"

fun claimed :: "'r state \<Rightarrow> 'r action list \<Rightarrow> addr list" where
  "claimed s [] = []"
| "claimed s (a # as) =
     step_claimed s a @ (case step s a of Inl _ \<Rightarrow> [] | Inr s' \<Rightarrow> claimed s' as)"

text \<open>The live set after the first loop of \<^verbatim>\<open>start\<close> with argument \<open>n\<close>.\<close>

definition started_threads :: "'r state \<Rightarrow> int32 \<Rightarrow> (int32 \<rightharpoonup> Thread)" where
  "started_threads s n =
     fold (\<lambda>k. emplace k \<lparr>threadId = k\<rparr>) (ids_from (generateId s) (loop_count 0 n)) (threads s)"

text \<open>
  \<^verbatim>\<open>start\<close> launches each worker it constructs exactly once: it returns, and the ids of
  the threads it has launched are, with multiplicity, the ids it has handed out.
\<close>

definition launches_each_new_worker_once :: "'r state \<Rightarrow> int32 \<Rightarrow> bool" where
  "launches_each_new_worker_once s n \<longleftrightarrow>
     (case start s n of
        Inl _ \<Rightarrow> False
      | Inr s' \<Rightarrow>
          mset (map threadid (drop (length (procs s)) (procs s')))
          = mset (ids_from (generateId s) (loop_count 0 n)))"

text \<open>
  Every live worker is stored under its own id, and the id counter has handed that id out
  and has not overflowed since.
\<close>

definition live_ids_wf :: "'r state \<Rightarrow> bool" where
  "live_ids_wf s \<longleftrightarrow>
     (\<forall>k t. threads s k = Some t \<longrightarrow> threadId t = k \<and> 0 \<le>s k \<and> k <s generateId s)"




text \<open>
  The threads that count as idle are those between two tasks; the busy ones hold a task.
  The counters of the pool are tied to their numbers: \<^verbatim>\<open>curThreadSize_ - idleThreadSize_\<close>
  is the number of busy threads, and \<^verbatim>\<open>idleThreadSize_\<close> is at least the number of idle ones
  (a thread that leaves at shutdown does not decrement it).
\<close>

fun idle_pc :: "pc \<Rightarrow> bool" where
  "idle_pc (Exec _) = False"
| "idle_pc Done = False"
| "idle_pc _ = True"

fun busy_pc :: "pc \<Rightarrow> bool" where
  "busy_pc (Exec _) = True"
| "busy_pc _ = False"






section \<open>The two loops of start\<close>

lemma start_construct_step:
  "i <s initThreadSize s \<Longrightarrow>
   start_construct i s =
     start_construct (i + 1)
       (s\<lparr>generateId := generateId s + 1,
          threads := emplace (generateId s) \<lparr>threadId = generateId s\<rparr> (threads s)\<rparr>)"
  by (subst start_construct.simps) (simp add: Thread_ctor_def)

lemma start_construct_stop: "\<not> i <s initThreadSize s \<Longrightarrow> start_construct i s = s"
  by (subst start_construct.simps) simp

lemma start_construct_induct:
  assumes "\<And>i s. (i <s initThreadSize s \<Longrightarrow>
             P (i + 1) (s\<lparr>generateId := generateId s + 1,
                threads := emplace (generateId s) \<lparr>threadId = generateId s\<rparr> (threads s)\<rparr>))
           \<Longrightarrow> P i s"
  shows "P i (s :: 'r state)"
proof (induction i s rule: start_construct.induct)
  case (1 i s)
  show ?case
  proof (rule assms)
    assume lt: "i <s initThreadSize s"
    show "P (i + 1) (s\<lparr>generateId := generateId s + 1,
                threads := emplace (generateId s) \<lparr>threadId = generateId s\<rparr> (threads s)\<rparr>)"
      using "1.IH" [OF lt refl] by (simp add: Thread_ctor_def)
  qed
qed

lemma start_construct_frame:
  "start_construct i s =
     s\<lparr>threads := threads (start_construct i s), generateId := generateId (start_construct i s)\<rparr>"
proof (induction i s rule: start_construct_induct)
  case (1 i s)
  show ?case
  proof (cases "i <s initThreadSize s")
    case True
    show ?thesis
      unfolding start_construct_step [OF True]
      by (subst "1" [OF True]) simp
  next
    case False
    then show ?thesis by (simp add: start_construct_stop)
  qed
qed


lemma ids_from_0: "ids_from g 0 = []"
  by (simp add: ids_from_def)

lemma ids_from_Suc: "ids_from g (Suc m) = g # ids_from (g + 1) m"
proof -
  have "[0..<Suc m] = 0 # map Suc [0..<m]"
    by (simp add: upt_conv_Cons map_Suc_upt del: upt_Suc)
  then show ?thesis
    by (simp add: ids_from_def comp_def add.assoc add.commute del: upt_Suc)
qed

lemma loop_count_step: "i <s n \<Longrightarrow> loop_count i n = Suc (loop_count (i + 1) n)"
  by (simp add: loop_count_def sless_inc word_sless_alt)

lemma loop_count_stop: "\<not> i <s n \<Longrightarrow> loop_count i n = 0"
  by (simp add: loop_count_def word_sless_alt)

lemma start_construct_closed:
  "start_construct i s =
     s\<lparr>threads := fold (\<lambda>k. emplace k \<lparr>threadId = k\<rparr>)
                     (ids_from (generateId s) (loop_count i (initThreadSize s))) (threads s),
       generateId := generateId s + of_nat (loop_count i (initThreadSize s))\<rparr>"
proof (induction i s rule: start_construct_induct)
  case (1 i s)
  show ?case
  proof (cases "i <s initThreadSize s")
    case True
    show ?thesis
      unfolding start_construct_step [OF True]
      by (subst "1" [OF True]) (simp add: loop_count_step [OF True] ids_from_Suc add.assoc)
  next
    case False
    then show ?thesis by (simp add: start_construct_stop loop_count_stop ids_from_0)
  qed
qed

lemma start_launch_step:
  "i <s initThreadSize s \<Longrightarrow> threads s i = Some t \<Longrightarrow>
   start_launch i s = start_launch (i + 1) (Thread_start t s)"
  by (subst start_launch.simps) (simp add: start_at_def)

lemma start_launch_null:
  "i <s initThreadSize s \<Longrightarrow> threads s i = None \<Longrightarrow> start_launch i s = Inl NullDeref"
  by (subst start_launch.simps) (simp add: start_at_def)

lemma start_launch_stop: "\<not> i <s initThreadSize s \<Longrightarrow> start_launch i s = Inr s"
  by (subst start_launch.simps) simp

lemma start_launch_induct:
  assumes "\<And>i s. (\<And>t. i <s initThreadSize s \<Longrightarrow> threads s i = Some t \<Longrightarrow>
             P (i + 1) (Thread_start t s))
           \<Longrightarrow> P i s"
  shows "P i (s :: 'r state)"
proof (induction i s rule: start_launch.induct)
  case (1 i s)
  show ?case
  proof (rule assms)
    fix t
    assume lt: "i <s initThreadSize s" and t: "threads s i = Some t"
    show "P (i + 1) (Thread_start t s)"
      using "1.IH" [OF lt, of "Thread_start t s"] t by (simp add: start_at_def)
  qed
qed

text \<open>The launches of the second loop, as far as it gets.\<close>

lemma start_launch_closed:
  "start_launch i s =
     (if \<forall>k \<in> set (ids_from i (loop_count i (initThreadSize s))). threads s k \<noteq> None
      then Inr (s\<lparr>procs := procs s @
                  map (\<lambda>k. \<lparr>threadid = threadId (the (threads s k)), lastTime = 0, at_pc = Entry\<rparr>)
                      (ids_from i (loop_count i (initThreadSize s)))\<rparr>)
      else Inl NullDeref)"
proof (induction i s rule: start_launch_induct)
  case (1 i s)
  show ?case
  proof (cases "i <s initThreadSize s")
    case True
    note lt = this
    show ?thesis
    proof (cases "threads s i")
      case None
      then show ?thesis
        using lt by (simp add: start_launch_null loop_count_step ids_from_Suc)
    next
      case (Some t)
      show ?thesis
        unfolding start_launch_step [OF lt Some]
        by (subst "1" [OF lt Some])
           (simp add: loop_count_step [OF lt] ids_from_Suc Some Thread_start_def)
    qed
  next
    case False
    then show ?thesis by (simp add: start_launch_stop loop_count_stop ids_from_0)
  qed
qed

lemma start_closed:
  "start s n =
     (if \<forall>k \<in> set (ids_from 0 (loop_count 0 n)). started_threads s n k \<noteq> None
      then Inr (s\<lparr>isPoolRunning := True, initThreadSize := n, curThreadSize := n,
                 idleThreadSize := n,
                 threads := started_threads s n,
                 generateId := generateId s + of_nat (loop_count 0 n),
                 procs := procs s @
                   map (\<lambda>k. \<lparr>threadid = threadId (the (started_threads s n k)),
                            lastTime = 0, at_pc = Entry\<rparr>)
                       (ids_from 0 (loop_count 0 n))\<rparr>)
      else Inl NullDeref)"
  by (simp add: start_def start_construct_closed start_launch_closed started_threads_def Let_def)

text \<open>The equations that evaluate the model on concrete states.\<close>

lemmas pool_defs =
  setMode_def setTaskQueMaxThreshHold_def setThreadSizeThreshHold_def checkPoolRunningState_def
  emit_def Thread_ctor_def Thread_start_def emplace_def make_shared_def invoke_def
  start_at_def queue_not_full_def submitTask_def start_closed started_threads_def
  loop_count_def ids_from_def duration_cast_seconds_def exit_shutdown_def reclaim_def
  claim_def wait_loop_def wake_timed_def finish_def threadFunc_def ThreadPool_dtor_def
  step_def step_enqueued_def step_claimed_def future_value_def
  THREAD_MAX_IDLE_TIME_def THREAD_MAX_THRESHHOLD_def TASK_MAX_THRESHHOLD_def
  ThreadPool_ctor_def Let_def word_sless_alt word_sle_eq

section \<open>Configuration\<close>

text \<open>
  C9: while the pool is running, \<^verbatim>\<open>setMode\<close>, \<^verbatim>\<open>setTaskQueMaxThreshHold\<close> and
  \<^verbatim>\<open>setThreadSizeThreshHold\<close> leave the whole state as it is, console included. When the
  pool is not running and not in cached mode, \<^verbatim>\<open>setThreadSizeThreshHold\<close> changes nothing
  but the console, where it writes its one diagnostic; the thread ceiling stays.
\<close>

theorem setters_noop_when_running:
  "(isPoolRunning s \<longrightarrow>
      setMode s mode = s
    \<and> setTaskQueMaxThreshHold s n = s
    \<and> setThreadSizeThreshHold s n = s)
   \<and> (\<not> isPoolRunning s \<and> poolMode s \<noteq> MODE_CACHED \<longrightarrow>
      setThreadSizeThreshHold s n = s\<lparr>trace := trace s @ [Cerr NotCachedMode]\<rparr>
    \<and> threadSizeThreshHold (setThreadSizeThreshHold s n) = threadSizeThreshHold s)"
  by (simp add: setMode_def setTaskQueMaxThreshHold_def setThreadSizeThreshHold_def
      checkPoolRunningState_def emit_def)

theorem setters_noop_when_running_witness:
  "isPoolRunning ((ThreadPool_ctor :: unit state)\<lparr>isPoolRunning := True\<rparr>)
   \<and> setMode ((ThreadPool_ctor :: unit state)\<lparr>isPoolRunning := True\<rparr>) MODE_CACHED
       = ThreadPool_ctor\<lparr>isPoolRunning := True\<rparr>
   \<and> setTaskQueMaxThreshHold ((ThreadPool_ctor :: unit state)\<lparr>isPoolRunning := True\<rparr>) 8
       = ThreadPool_ctor\<lparr>isPoolRunning := True\<rparr>
   \<and> setThreadSizeThreshHold ((ThreadPool_ctor :: unit state)\<lparr>isPoolRunning := True\<rparr>) 8
       = ThreadPool_ctor\<lparr>isPoolRunning := True\<rparr>
   \<and> \<not> isPoolRunning (ThreadPool_ctor :: unit state)
   \<and> poolMode (ThreadPool_ctor :: unit state) \<noteq> MODE_CACHED
   \<and> setThreadSizeThreshHold (ThreadPool_ctor :: unit state) 8
       = ThreadPool_ctor\<lparr>trace := [Cerr NotCachedMode]\<rparr>"
  using setters_noop_when_running
          [of "(ThreadPool_ctor :: unit state)\<lparr>isPoolRunning := True\<rparr>" MODE_CACHED 8]
        setters_noop_when_running [of "ThreadPool_ctor :: unit state" MODE_CACHED 8]
  by (simp add: ThreadPool_ctor_def)

section \<open>The claim of a task and the order of service\<close>

lemma taskQue_invoke [simp]: "taskQue (invoke a s) = taskQue s"
  by (simp add: invoke_def split: option.splits)

lemma taskQue_emit [simp]: "taskQue (emit e s) = taskQue s"
  by (simp add: emit_def)

lemma step_fifo:
  assumes "step s a = Inr s'"
  shows "taskQue s @ step_enqueued s a = step_claimed s a @ taskQue s'"
proof (cases a)
  case (SetMode m)
  then show ?thesis using assms
    by (auto simp: step_def step_enqueued_def step_claimed_def setMode_def)
next
  case (SetTaskQueMaxThreshHold n)
  then show ?thesis using assms
    by (auto simp: step_def step_enqueued_def step_claimed_def setTaskQueMaxThreshHold_def)
next
  case (SetThreadSizeThreshHold n)
  then show ?thesis using assms
    by (auto simp: step_def step_enqueued_def step_claimed_def setThreadSizeThreshHold_def)
next
  case (Start n)
  then show ?thesis using assms
    by (auto simp: step_def step_enqueued_def step_claimed_def start_closed split: if_splits)
next
  case (SubmitTask func dflt)
  then show ?thesis using assms
    by (auto simp: step_def step_enqueued_def step_claimed_def submitTask_def make_shared_def
        queue_not_full_def Let_def Thread_ctor_def start_at_def Thread_start_def emplace_def
        split: if_splits sum.splits option.splits prod.splits)
next
  case (Worker i timeout now)
  show ?thesis
  proof (cases "i < length (procs s)")
    case False
    then show ?thesis using assms Worker
      by (auto simp: step_def step_enqueued_def step_claimed_def)
  next
    case True
    then show ?thesis using assms Worker
      by (cases "taskQue s")
         (auto simp: step_def step_enqueued_def step_claimed_def threadFunc_def
            wake_timed_def wait_loop_def claim_def reclaim_def exit_shutdown_def finish_def
            Let_def
          split: pc.splits if_splits prod.splits list.splits)
  qed
next
  case Stop
  then show ?thesis using assms
    by (auto simp: step_def step_enqueued_def step_claimed_def ThreadPool_dtor_def)
qed

lemma run_fifo:
  "run s as = Inr s' \<Longrightarrow> taskQue s @ enqueued s as = claimed s as @ taskQue s'"
proof (induction as arbitrary: s)
  case Nil
  then show ?case by simp
next
  case (Cons a as)
  from Cons.prems obtain s1 where s1: "step s a = Inr s1" and r: "run s1 as = Inr s'"
    by (auto split: sum.splits)
  have "taskQue s @ step_enqueued s a @ enqueued s1 as
        = step_claimed s a @ taskQue s1 @ enqueued s1 as"
    using step_fifo [OF s1] by (metis append.assoc)
  also have "\<dots> = step_claimed s a @ claimed s1 as @ taskQue s'"
    using Cons.IH [OF r] by simp
  finally show ?case using s1 by simp
qed

text \<open>
  C3: a worker that holds the lock and finds the queue non-empty takes the front task
  \<open>task\<close> with it (its control point becomes \<open>Exec task\<close>), decrements
  \<^verbatim>\<open>idleThreadSize_\<close> and \<^verbatim>\<open>taskSize_\<close>, leaves the rest of the queue, signals \<^verbatim>\<open>notEmpty_\<close>
  exactly when the rest is non-empty and then signals \<^verbatim>\<open>notFull_\<close>; nothing else changes.
  Consequently, along every execution the tasks taken by workers, in the order they are
  taken, followed by what is left in the queue, are the initial queue followed by the
  accepted submissions in the order they were made: service is first in, first out.
\<close>

theorem worker_claim_fifo:
  "(taskQue s = task # rest \<longrightarrow>
      wait_loop w s =
        (w\<lparr>at_pc := Exec task\<rparr>,
         s\<lparr>idleThreadSize := idleThreadSize s - 1,
           taskQue := rest,
           taskSize := taskSize s - 1,
           trace := trace s @ [Cout GotTask]
                    @ (if rest \<noteq> [] then [NotifyAll notEmpty] else [])
                    @ [NotifyAll notFull]\<rparr>))
   \<and> (run s as = Inr s' \<longrightarrow>
        taskQue s @ enqueued s as = claimed s as @ taskQue s')"
proof (intro conjI impI)
  assume "taskQue s = task # rest"
  then show "wait_loop w s =
        (w\<lparr>at_pc := Exec task\<rparr>,
         s\<lparr>idleThreadSize := idleThreadSize s - 1,
           taskQue := rest,
           taskSize := taskSize s - 1,
           trace := trace s @ [Cout GotTask]
                    @ (if rest \<noteq> [] then [NotifyAll notEmpty] else [])
                    @ [NotifyAll notFull]\<rparr>)"
    by (simp add: wait_loop_def claim_def emit_def Let_def)
next
  assume "run s as = Inr s'"
  then show "taskQue s @ enqueued s as = claimed s as @ taskQue s'"
    by (rule run_fifo)
qed


lemma two_served_reachable:
  "run two_queued
     [Worker 0 False 11, SubmitTask (\<lambda>_. 7) 0, Worker 0 False 12, Worker 0 False 12]
   = Inr two_served"
  by (simp add: pool_defs two_queued_def two_served_def fun_upd_twist)

theorem worker_claim_fifo_witness:
  "taskQue two_queued = 0 # [1]
   \<and> wait_loop \<lparr>threadid = 0, lastTime = 10, at_pc = Top\<rparr> two_queued =
        (\<lparr>threadid = 0, lastTime = 10, at_pc = Exec 0\<rparr>,
         two_queued\<lparr>idleThreadSize := 0, taskQue := [1], taskSize := 1,
           trace := trace two_queued @ [Cout GotTask, NotifyAll notEmpty, NotifyAll notFull]\<rparr>)
   \<and> run two_queued
         [Worker 0 False 11, SubmitTask (\<lambda>_. 7) 0, Worker 0 False 12, Worker 0 False 12]
       = Inr two_served
   \<and> enqueued two_queued
         [Worker 0 False 11, SubmitTask (\<lambda>_. 7) 0, Worker 0 False 12, Worker 0 False 12] = [2]
   \<and> claimed two_queued
         [Worker 0 False 11, SubmitTask (\<lambda>_. 7) 0, Worker 0 False 12, Worker 0 False 12] = [0, 1]
   \<and> taskQue two_served = [2]"
proof -
  note inst = worker_claim_fifo
         [of two_queued 0 "[1]" "\<lparr>threadid = 0, lastTime = 10, at_pc = Top\<rparr>"
             "[Worker 0 False 11, SubmitTask (\<lambda>_. 7) 0, Worker 0 False 12, Worker 0 False 12]"
             two_served]
  have q: "taskQue two_queued = 0 # [1]"
    by (simp add: two_queued_def)
  have w: "wait_loop \<lparr>threadid = 0, lastTime = 10, at_pc = Top\<rparr> two_queued =
        (\<lparr>threadid = 0, lastTime = 10, at_pc = Exec 0\<rparr>,
         two_queued\<lparr>idleThreadSize := 0, taskQue := [1], taskSize := 1,
           trace := trace two_queued @ [Cout GotTask, NotifyAll notEmpty, NotifyAll notFull]\<rparr>)"
    using inst q by (simp add: two_queued_def)
  have f: "taskQue two_queued
             @ enqueued two_queued
                 [Worker 0 False 11, SubmitTask (\<lambda>_. 7) 0, Worker 0 False 12, Worker 0 False 12]
           = claimed two_queued
                 [Worker 0 False 11, SubmitTask (\<lambda>_. 7) 0, Worker 0 False 12, Worker 0 False 12]
             @ taskQue two_served"
    using inst two_served_reachable by blast
  have c: "claimed two_queued
         [Worker 0 False 11, SubmitTask (\<lambda>_. 7) 0, Worker 0 False 12, Worker 0 False 12] = [0, 1]"
    by (simp add: pool_defs two_queued_def)
  have e: "taskQue two_served = [2]"
    by (simp add: two_served_def)
  have en: "enqueued two_queued
         [Worker 0 False 11, SubmitTask (\<lambda>_. 7) 0, Worker 0 False 12, Worker 0 False 12] = [2]"
    using f unfolding c e q by simp
  show ?thesis
    using q w two_served_reachable en c e by blast
qed

section \<open>Rejected submissions\<close>

lemma set_update_pc:
  "i < length ws \<Longrightarrow> w \<in> set (ws[i := w']) \<Longrightarrow> w = w' \<or> w \<in> set ws"
  by (metis in_set_conv_nth length_list_update nth_list_update_eq nth_list_update_neq)

lemma step_pending:
  assumes "step s a = Inr s'" and "task_pending s' p"
  shows "task_pending s p \<or> (p = brk s \<and> (\<exists>f d. a = SubmitTask f d))"
proof (cases a)
  case (SetMode m)
  then show ?thesis using assms
    by (auto simp: step_def task_pending_def setMode_def split: if_splits)
next
  case (SetTaskQueMaxThreshHold n)
  then show ?thesis using assms
    by (auto simp: step_def task_pending_def setTaskQueMaxThreshHold_def split: if_splits)
next
  case (SetThreadSizeThreshHold n)
  then show ?thesis using assms
    by (auto simp: step_def task_pending_def setThreadSizeThreshHold_def emit_def split: if_splits)
next
  case (Start n)
  then show ?thesis using assms
    by (auto simp: step_def task_pending_def start_closed split: if_splits)
next
  case (SubmitTask func dflt)
  then show ?thesis using assms
    by (auto simp: step_def task_pending_def submitTask_def make_shared_def invoke_def emit_def
        queue_not_full_def Let_def Thread_ctor_def start_at_def Thread_start_def emplace_def
        split: if_splits sum.splits option.splits prod.splits)
next
  case (Worker i timeout now)
  show ?thesis
  proof (cases "i < length (procs s)")
    case False
    then show ?thesis using assms Worker
      by (auto simp: step_def)
  next
    case True
    obtain w' s1 where tf: "threadFunc timeout now (procs s ! i) s = (w', s1)"
      by (cases "threadFunc timeout now (procs s ! i) s")
    have s': "s' = s1\<lparr>procs := (procs s1)[i := w']\<rparr>"
      using assms(1) Worker True tf by (simp add: step_def)
    have pr: "procs s1 = procs s"
      using tf
      by (auto simp: threadFunc_def wake_timed_def wait_loop_def claim_def reclaim_def
            exit_shutdown_def finish_def emit_def invoke_def Let_def
          split: pc.splits if_splits list.splits option.splits)
    have q: "set (taskQue s1) \<subseteq> set (taskQue s)"
      using tf
      by (auto simp: threadFunc_def wake_timed_def wait_loop_def claim_def reclaim_def
            exit_shutdown_def finish_def emit_def invoke_def Let_def
          split: pc.splits if_splits list.splits option.splits)
    have w': "at_pc w' = Exec p \<Longrightarrow> at_pc (procs s ! i) = Exec p \<or> p \<in> set (taskQue s)"
      using tf
      by (auto simp: threadFunc_def wake_timed_def wait_loop_def claim_def reclaim_def
            exit_shutdown_def finish_def emit_def invoke_def Let_def
          split: pc.splits if_splits list.splits option.splits)
    from assms(2) consider "p \<in> set (taskQue s')" | w where "w \<in> set (procs s')" "at_pc w = Exec p"
      by (auto simp: task_pending_def)
    then have "task_pending s p"
    proof cases
      case 1
      then show ?thesis using q s' by (auto simp: task_pending_def)
    next
      case 2
      then have "w = w' \<or> w \<in> set (procs s)"
        using s' pr True set_update_pc [of i "procs s" w w'] by simp
      then show ?thesis
      proof
        assume "w = w'"
        then show ?thesis using w' 2 True by (auto simp: task_pending_def)
      next
        assume "w \<in> set (procs s)"
        then show ?thesis using 2 by (auto simp: task_pending_def)
      qed
    qed
    then show ?thesis ..
  qed
next
  case Stop
  then show ?thesis using assms
    by (auto simp: step_def task_pending_def ThreadPool_dtor_def emit_def)
qed


lemma step_brk:
  assumes "step s a = Inr s'"
  shows "brk s \<le> brk s' \<and> ((\<exists>f d. a = SubmitTask f d) \<longrightarrow> brk s < brk s')"
proof (cases a)
  case (Start n)
  then show ?thesis using assms
    by (auto simp: step_def start_closed split: if_splits)
next
  case (SubmitTask func dflt)
  then show ?thesis using assms
    by (auto simp: step_def submitTask_def make_shared_def invoke_def emit_def
        Let_def Thread_ctor_def start_at_def Thread_start_def emplace_def
        split: if_splits sum.splits option.splits prod.splits)
next
  case (Worker i timeout now)
  then show ?thesis using assms
    by (auto simp: step_def threadFunc_def wake_timed_def wait_loop_def claim_def reclaim_def
            exit_shutdown_def finish_def emit_def invoke_def Let_def
          split: pc.splits if_splits list.splits option.splits prod.splits)
qed (use assms in \<open>auto simp: step_def setMode_def setTaskQueMaxThreshHold_def
      setThreadSizeThreshHold_def emit_def ThreadPool_dtor_def split: if_splits\<close>)

lemma step_heap_untouched:
  assumes "step s a = Inr s'" and "p < brk s" and "\<not> task_pending s p"
  shows "heap s' p = heap s p"
proof (cases a)
  case (Start n)
  then show ?thesis using assms
    by (auto simp: step_def start_closed split: if_splits)
next
  case (SubmitTask func dflt)
  then show ?thesis using assms
    by (auto simp: step_def submitTask_def make_shared_def invoke_def emit_def
        Let_def Thread_ctor_def start_at_def Thread_start_def emplace_def
        split: if_splits sum.splits option.splits prod.splits)
next
  case (Worker i timeout now)
  show ?thesis
  proof (cases "i < length (procs s)")
    case False
    then show ?thesis using assms Worker by (auto simp: step_def)
  next
    case True
    then have "at_pc (procs s ! i) \<noteq> Exec p"
      using assms(3) by (auto simp: task_pending_def)
    then show ?thesis using assms Worker True
      by (auto simp: step_def threadFunc_def wake_timed_def wait_loop_def claim_def reclaim_def
            exit_shutdown_def finish_def emit_def invoke_def Let_def
          split: pc.splits if_splits list.splits option.splits prod.splits)
  qed
qed (use assms in \<open>auto simp: step_def setMode_def setTaskQueMaxThreshHold_def
      setThreadSizeThreshHold_def emit_def ThreadPool_dtor_def split: if_splits\<close>)

lemma step_heap_wf:
  assumes "step s a = Inr s'" and "heap_wf s"
  shows "heap_wf s'"
  unfolding heap_wf_def
proof (intro allI impI)
  fix p
  assume "task_pending s' p"
  from step_pending [OF assms(1) this] step_brk [OF assms(1)] assms(2)
  show "p < brk s'"
    by (auto simp: heap_wf_def)
qed

lemma run_heap_wf: "run s as = Inr s' \<Longrightarrow> heap_wf s \<Longrightarrow> heap_wf s'"
  by (induction as arbitrary: s) (auto split: sum.splits dest: step_heap_wf)

lemma heap_wf_ctor: "heap_wf ThreadPool_ctor"
  by (simp add: heap_wf_def task_pending_def ThreadPool_ctor_def)

lemma run_heap_untouched:
  "run s as = Inr s' \<Longrightarrow> p < brk s \<Longrightarrow> \<not> task_pending s p \<Longrightarrow> heap s' p = heap s p"
proof (induction as arbitrary: s)
  case Nil
  then show ?case by simp
next
  case (Cons a as)
  from Cons.prems(1) obtain s1 where s1: "step s a = Inr s1" and r: "run s1 as = Inr s'"
    by (auto split: sum.splits)
  have "p < brk s1"
    using step_brk [OF s1] Cons.prems(2) by simp
  moreover have "\<not> task_pending s1 p"
    using step_pending [OF s1, of p] Cons.prems(2,3) by auto
  ultimately have "heap s' p = heap s1 p"
    using Cons.IH [OF r] by simp
  then show ?case
    using step_heap_untouched [OF s1 Cons.prems(2,3)] by simp
qed

lemma submit_rejected_state:
  "\<not> queue_not_full s \<Longrightarrow>
   submitTask s func dflt =
     Inr (Suc (brk s),
          s\<lparr>heap := (heap s)(brk s \<mapsto> \<lparr>fn = func, shared = None\<rparr>,
                             Suc (brk s) \<mapsto> \<lparr>fn = (\<lambda>_. dflt), shared = Some dflt\<rparr>),
            brk := Suc (Suc (brk s)),
            trace := trace s @ [Cerr QueueFullTimeout]\<rparr>)"
  by (simp add: submitTask_def make_shared_def queue_not_full_def invoke_def emit_def Let_def)

text \<open>
  C1: in a state the pool can reach, when \<^verbatim>\<open>wait_for\<close> returns with the queue still full,
  \<^verbatim>\<open>submitTask\<close> changes nothing but the store of packaged tasks and the console: the queue,
  the task counter and every other field of the pool stay. The returned future is fulfilled
  with the default value. The packaged task that holds the caller's callable is left
  uninvoked, and no later execution of the pool invokes it.
\<close>

theorem submit_rejected:
  "run ThreadPool_ctor pre = Inr s \<and> \<not> queue_not_full s \<longrightarrow>
     submitTask s func dflt =
       Inr (Suc (brk s),
            s\<lparr>heap := (heap s)(brk s \<mapsto> \<lparr>fn = func, shared = None\<rparr>,
                               Suc (brk s) \<mapsto> \<lparr>fn = (\<lambda>_. dflt), shared = Some dflt\<rparr>),
              brk := Suc (Suc (brk s)),
              trace := trace s @ [Cerr QueueFullTimeout]\<rparr>)
     \<and> (submitTask s func dflt = Inr (fut, s') \<and> run s' post = Inr s'' \<longrightarrow>
          taskQue s' = taskQue s \<and> taskSize s' = taskSize s
        \<and> future_value s' fut = Some dflt
        \<and> heap s'' (brk s) = Some \<lparr>fn = func, shared = None\<rparr>)"
proof (intro impI conjI; elim conjE)
  assume pre: "run ThreadPool_ctor pre = Inr s" and full: "\<not> queue_not_full s"
  show "submitTask s func dflt =
       Inr (Suc (brk s),
            s\<lparr>heap := (heap s)(brk s \<mapsto> \<lparr>fn = func, shared = None\<rparr>,
                               Suc (brk s) \<mapsto> \<lparr>fn = (\<lambda>_. dflt), shared = Some dflt\<rparr>),
              brk := Suc (Suc (brk s)),
              trace := trace s @ [Cerr QueueFullTimeout]\<rparr>)"
    using full by (rule submit_rejected_state)
next
  assume pre: "run ThreadPool_ctor pre = Inr s" and full: "\<not> queue_not_full s"
    and sub: "submitTask s func dflt = Inr (fut, s')" and post: "run s' post = Inr s''"
  have wf: "heap_wf s"
    using run_heap_wf [OF pre heap_wf_ctor] .
  have fut: "fut = Suc (brk s)"
    and s': "s' = s\<lparr>heap := (heap s)(brk s \<mapsto> \<lparr>fn = func, shared = None\<rparr>,
                               Suc (brk s) \<mapsto> \<lparr>fn = (\<lambda>_. dflt), shared = Some dflt\<rparr>),
              brk := Suc (Suc (brk s)),
              trace := trace s @ [Cerr QueueFullTimeout]\<rparr>"
    using sub submit_rejected_state [OF full, of func dflt] by auto
  have np: "\<not> task_pending s' (brk s)"
    using wf unfolding s' by (auto simp: heap_wf_def task_pending_def)
  have "heap s'' (brk s) = heap s' (brk s)"
    using run_heap_untouched [OF post _ np] by (simp add: s')
  then have h: "heap s'' (brk s) = Some \<lparr>fn = func, shared = None\<rparr>"
    by (simp add: s')
  show "taskQue s' = taskQue s" by (simp add: s')
  show "taskSize s' = taskSize s" by (simp add: s')
  show "future_value s' fut = Some dflt" by (simp add: s' fut future_value_def)
  show "heap s'' (brk s) = Some \<lparr>fn = func, shared = None\<rparr>" by (rule h)
qed

lemma full_one_reachable:
  "run ThreadPool_ctor [SetTaskQueMaxThreshHold 1, Start 1, SubmitTask (\<lambda>_. 5) 0] = Inr full_one"
  by (simp add: pool_defs full_one_def)

lemma drained_one_reachable:
  "run rejected_one [Worker 0 False 10, Worker 0 False 10, Worker 0 False 20, Worker 0 False 20]
   = Inr drained_one"
  by (simp add: pool_defs full_one_def rejected_one_def drained_one_def fun_upd_twist)

theorem submit_rejected_witness:
  "run ThreadPool_ctor [SetTaskQueMaxThreshHold 1, Start 1, SubmitTask (\<lambda>_. 5) 0] = Inr full_one
   \<and> \<not> queue_not_full full_one
   \<and> submitTask full_one (\<lambda>_. 6) 0 = Inr (2, rejected_one)
   \<and> run rejected_one [Worker 0 False 10, Worker 0 False 10, Worker 0 False 20, Worker 0 False 20]
       = Inr drained_one
   \<and> taskQue rejected_one = taskQue full_one
   \<and> taskSize rejected_one = taskSize full_one
   \<and> future_value rejected_one 2 = Some 0
   \<and> heap drained_one 1 = Some \<lparr>fn = \<lambda>_. 6, shared = None\<rparr>"
proof -
  note inst = submit_rejected
      [of "[SetTaskQueMaxThreshHold 1, Start 1, SubmitTask (\<lambda>_. 5) 0]" full_one "\<lambda>_. 6" 0
          2 rejected_one
          "[Worker 0 False 10, Worker 0 False 10, Worker 0 False 20, Worker 0 False 20]"
          drained_one]
  have full: "\<not> queue_not_full full_one"
    by (simp add: pool_defs full_one_def)
  have b: "brk full_one = 1"
    by (simp add: full_one_def)
  have sub: "submitTask full_one (\<lambda>_. 6) 0 = Inr (2, rejected_one)"
    by (simp add: pool_defs full_one_def rejected_one_def numeral_2_eq_2)
  show ?thesis
    using inst full_one_reachable full sub drained_one_reachable unfolding b by simp
qed

section \<open>Growth of a cached pool on submission\<close>

lemma cached_one_reachable:
  "run ThreadPool_ctor [SetMode MODE_CACHED, Start 1, SubmitTask (\<lambda>_. 5) 0] = Inr cached_one"
  by (simp add: pool_defs cached_one_def)

lemma submitTask_accepted:
  "queue_not_full s \<Longrightarrow>
   submitTask s func dflt =
     Inr (brk s,
          if poolMode s = MODE_CACHED \<and> idleThreadSize s <s taskSize s + 1
             \<and> curThreadSize s <s threadSizeThreshHold s
          then s\<lparr>heap := (heap s)(brk s \<mapsto> \<lparr>fn = func, shared = None\<rparr>),
                 brk := Suc (brk s),
                 taskQue := taskQue s @ [brk s],
                 taskSize := taskSize s + 1,
                 generateId := generateId s + 1,
                 threads := emplace (generateId s) \<lparr>threadId = generateId s\<rparr> (threads s),
                 procs := procs s @
                   [\<lparr>threadid = threadId (case threads s (generateId s) of
                                              None \<Rightarrow> \<lparr>threadId = generateId s\<rparr>
                                            | Some t \<Rightarrow> t),
                     lastTime = 0, at_pc = Entry\<rparr>],
                 curThreadSize := curThreadSize s + 1,
                 idleThreadSize := idleThreadSize s + 1,
                 trace := trace s @ [NotifyAll notEmpty, Cout CreatingThread]\<rparr>
          else s\<lparr>heap := (heap s)(brk s \<mapsto> \<lparr>fn = func, shared = None\<rparr>),
                 brk := Suc (brk s),
                 taskQue := taskQue s @ [brk s],
                 taskSize := taskSize s + 1,
                 trace := trace s @ [NotifyAll notEmpty]\<rparr>)"
  by (simp add: submitTask_def make_shared_def queue_not_full_def emit_def Thread_ctor_def
      start_at_def emplace_def Thread_start_def Let_def split: option.splits)

text \<open>
  C6: a submission in cached mode that finds room in the queue enqueues its task and then,
  exactly when the task counter after the enqueue exceeds \<^verbatim>\<open>idleThreadSize_\<close> and
  \<^verbatim>\<open>curThreadSize_\<close> is below \<^verbatim>\<open>threadSizeThreshHold_\<close>, constructs one \<^verbatim>\<open>Thread\<close> with the next
  id, emplaces it in the live set, launches one thread and increments both counters, all
  before it returns; otherwise it launches nothing and leaves the live set and the counters
  alone. The launched thread runs with the new id, the next id not being in the live set
  already (it never is before the id counter overflows).
\<close>

theorem submit_spawns_at_most_one:
  "queue_not_full s \<and> poolMode s = MODE_CACHED \<longrightarrow>
   (\<exists>i. submitTask s func dflt =
     Inr (brk s,
          if idleThreadSize s <s taskSize s + 1 \<and> curThreadSize s <s threadSizeThreshHold s
          then s\<lparr>heap := (heap s)(brk s \<mapsto> \<lparr>fn = func, shared = None\<rparr>),
                 brk := Suc (brk s),
                 taskQue := taskQue s @ [brk s],
                 taskSize := taskSize s + 1,
                 generateId := generateId s + 1,
                 threads := emplace (generateId s) \<lparr>threadId = generateId s\<rparr> (threads s),
                 procs := procs s @ [\<lparr>threadid = i, lastTime = 0, at_pc = Entry\<rparr>],
                 curThreadSize := curThreadSize s + 1,
                 idleThreadSize := idleThreadSize s + 1,
                 trace := trace s @ [NotifyAll notEmpty, Cout CreatingThread]\<rparr>
          else s\<lparr>heap := (heap s)(brk s \<mapsto> \<lparr>fn = func, shared = None\<rparr>),
                 brk := Suc (brk s),
                 taskQue := taskQue s @ [brk s],
                 taskSize := taskSize s + 1,
                 trace := trace s @ [NotifyAll notEmpty]\<rparr>)
      \<and> (threads s (generateId s) = None \<longrightarrow>
             i = generateId s
           \<and> emplace (generateId s) \<lparr>threadId = generateId s\<rparr> (threads s)
               = (threads s)(generateId s \<mapsto> \<lparr>threadId = generateId s\<rparr>)))"
proof (intro impI; elim conjE)
  assume q: "queue_not_full s" and m: "poolMode s = MODE_CACHED"
  let ?i = "threadId (case threads s (generateId s) of
                        None \<Rightarrow> \<lparr>threadId = generateId s\<rparr> | Some t \<Rightarrow> t)"
  have "threads s (generateId s) = None \<longrightarrow>
             ?i = generateId s
           \<and> emplace (generateId s) \<lparr>threadId = generateId s\<rparr> (threads s)
               = (threads s)(generateId s \<mapsto> \<lparr>threadId = generateId s\<rparr>)"
    by (simp add: emplace_def)
  then show "\<exists>i. submitTask s func dflt =
     Inr (brk s,
          if idleThreadSize s <s taskSize s + 1 \<and> curThreadSize s <s threadSizeThreshHold s
          then s\<lparr>heap := (heap s)(brk s \<mapsto> \<lparr>fn = func, shared = None\<rparr>),
                 brk := Suc (brk s),
                 taskQue := taskQue s @ [brk s],
                 taskSize := taskSize s + 1,
                 generateId := generateId s + 1,
                 threads := emplace (generateId s) \<lparr>threadId = generateId s\<rparr> (threads s),
                 procs := procs s @ [\<lparr>threadid = i, lastTime = 0, at_pc = Entry\<rparr>],
                 curThreadSize := curThreadSize s + 1,
                 idleThreadSize := idleThreadSize s + 1,
                 trace := trace s @ [NotifyAll notEmpty, Cout CreatingThread]\<rparr>
          else s\<lparr>heap := (heap s)(brk s \<mapsto> \<lparr>fn = func, shared = None\<rparr>),
                 brk := Suc (brk s),
                 taskQue := taskQue s @ [brk s],
                 taskSize := taskSize s + 1,
                 trace := trace s @ [NotifyAll notEmpty]\<rparr>)
      \<and> (threads s (generateId s) = None \<longrightarrow>
             i = generateId s
           \<and> emplace (generateId s) \<lparr>threadId = generateId s\<rparr> (threads s)
               = (threads s)(generateId s \<mapsto> \<lparr>threadId = generateId s\<rparr>))"
    using submitTask_accepted [OF q, of func dflt] m
    by (intro exI [of _ ?i]) simp
qed

theorem submit_spawns_at_most_one_witness:
  "queue_not_full cached_one \<and> poolMode cached_one = MODE_CACHED
   \<and> threads cached_one (generateId cached_one) = None
   \<and> submitTask cached_one (\<lambda>_. 6) 0 =
       Inr (1, cached_one
             \<lparr>heap := (heap cached_one)(1 \<mapsto> \<lparr>fn = \<lambda>_. 6, shared = None\<rparr>),
              brk := 2,
              taskQue := [0, 1],
              taskSize := 2,
              generateId := 2,
              threads := [0 \<mapsto> \<lparr>threadId = 0\<rparr>, 1 \<mapsto> \<lparr>threadId = 1\<rparr>],
              procs := [\<lparr>threadid = 0, lastTime = 0, at_pc = Entry\<rparr>,
                        \<lparr>threadid = 1, lastTime = 0, at_pc = Entry\<rparr>],
              curThreadSize := 2,
              idleThreadSize := 2,
              trace := [NotifyAll notEmpty, NotifyAll notEmpty, Cout CreatingThread]\<rparr>)"
proof -
  have h: "queue_not_full cached_one \<and> poolMode cached_one = MODE_CACHED
           \<and> threads cached_one (generateId cached_one) = None"
    by (simp add: cached_one_def pool_defs)
  then have hq: "queue_not_full cached_one \<and> poolMode cached_one = MODE_CACHED"
    and hf: "threads cached_one (generateId cached_one) = None"
    by blast+
  from submit_spawns_at_most_one [of cached_one "\<lambda>_. 6" 0, THEN mp, OF hq]
  obtain i where
    A: "submitTask cached_one (\<lambda>_. 6) 0 =
     Inr (brk cached_one,
          if idleThreadSize cached_one <s taskSize cached_one + 1
             \<and> curThreadSize cached_one <s threadSizeThreshHold cached_one
          then cached_one\<lparr>heap := (heap cached_one)(brk cached_one \<mapsto> \<lparr>fn = \<lambda>_. 6, shared = None\<rparr>),
                 brk := Suc (brk cached_one),
                 taskQue := taskQue cached_one @ [brk cached_one],
                 taskSize := taskSize cached_one + 1,
                 generateId := generateId cached_one + 1,
                 threads := emplace (generateId cached_one) \<lparr>threadId = generateId cached_one\<rparr>
                              (threads cached_one),
                 procs := procs cached_one @ [\<lparr>threadid = i, lastTime = 0, at_pc = Entry\<rparr>],
                 curThreadSize := curThreadSize cached_one + 1,
                 idleThreadSize := idleThreadSize cached_one + 1,
                 trace := trace cached_one @ [NotifyAll notEmpty, Cout CreatingThread]\<rparr>
          else cached_one\<lparr>heap := (heap cached_one)(brk cached_one \<mapsto> \<lparr>fn = \<lambda>_. 6, shared = None\<rparr>),
                 brk := Suc (brk cached_one),
                 taskQue := taskQue cached_one @ [brk cached_one],
                 taskSize := taskSize cached_one + 1,
                 trace := trace cached_one @ [NotifyAll notEmpty]\<rparr>)"
    and B: "threads cached_one (generateId cached_one) = None \<longrightarrow>
         i = generateId cached_one
       \<and> emplace (generateId cached_one) \<lparr>threadId = generateId cached_one\<rparr> (threads cached_one)
         = (threads cached_one)(generateId cached_one \<mapsto> \<lparr>threadId = generateId cached_one\<rparr>)"
    by (elim exE conjE)
  from B hf have i: "i = generateId cached_one"
    and e: "emplace (generateId cached_one) \<lparr>threadId = generateId cached_one\<rparr> (threads cached_one)
         = (threads cached_one)(generateId cached_one \<mapsto> \<lparr>threadId = generateId cached_one\<rparr>)"
    by blast+
  have "submitTask cached_one (\<lambda>_. 6) 0 =
       Inr (1, cached_one
             \<lparr>heap := (heap cached_one)(1 \<mapsto> \<lparr>fn = \<lambda>_. 6, shared = None\<rparr>),
              brk := 2,
              taskQue := [0, 1],
              taskSize := 2,
              generateId := 2,
              threads := [0 \<mapsto> \<lparr>threadId = 0\<rparr>, 1 \<mapsto> \<lparr>threadId = 1\<rparr>],
              procs := [\<lparr>threadid = 0, lastTime = 0, at_pc = Entry\<rparr>,
                        \<lparr>threadid = 1, lastTime = 0, at_pc = Entry\<rparr>],
              curThreadSize := 2,
              idleThreadSize := 2,
              trace := [NotifyAll notEmpty, NotifyAll notEmpty, Cout CreatingThread]\<rparr>)"
    unfolding A e i
    by (simp add: cached_one_def ThreadPool_ctor_def word_sless_alt THREAD_MAX_THRESHHOLD_def)
  then show ?thesis
    using h by blast
qed

section \<open>Reclamation of idle workers\<close>


lemma duration_cast_seconds_ge:
  "THREAD_MAX_IDLE_TIME \<le> duration_cast_seconds d \<longleftrightarrow> 60000000000 \<le> d"
  unfolding THREAD_MAX_IDLE_TIME_def duration_cast_seconds_def
  by (cases "d < 0") (simp_all, linarith+)

lemma sless_dec: "(a::int32) <s b \<Longrightarrow> a \<le>s b - 1"
proof -
  assume lt: "a <s b"
  then have "- 2147483648 < sint b"
    using sint32_range [of a] by (simp add: word_sless_alt)
  then have "sint (b - 1) = sint b - 1"
    by (rule sint_dec)
  then show ?thesis
    using lt by (simp add: word_sless_alt word_sle_eq)
qed

text \<open>
  C5, as the claim states it, fails: a worker of the cached pool above whose timed wait
  runs out exactly 60 seconds after its last task, which is not strictly longer than the
  idle timeout, terminates and is removed from the live set.
\<close>

theorem reclaim_at_exactly_sixty_seconds:
  "at_pc (fst (wake_timed True 60000000100
                 \<lparr>threadid = 1, lastTime = 100, at_pc = TimedWait\<rparr> cached_idle)) = Done
   \<and> curThreadSize (snd (wake_timed True 60000000100
                 \<lparr>threadid = 1, lastTime = 100, at_pc = TimedWait\<rparr> cached_idle)) = 1
   \<and> threads (snd (wake_timed True 60000000100
                 \<lparr>threadid = 1, lastTime = 100, at_pc = TimedWait\<rparr> cached_idle)) 1 = None
   \<and> \<not> (60 * 1000000000
          < 60000000100 - lastTime \<lparr>threadid = 1, lastTime = 100, at_pc = TimedWait\<rparr>)"
  by (simp add: pool_defs cached_idle_def)

text \<open>
  C5, amended: a worker whose timed wait ran out is reclaimed exactly when at least 60
  seconds (60 * 10^9 nanoseconds of the clock) have passed since its last task and
  \<^verbatim>\<open>curThreadSize_\<close> exceeds \<^verbatim>\<open>initThreadSize_\<close>. It then erases its id from the live set,
  decrements \<^verbatim>\<open>curThreadSize_\<close> and \<^verbatim>\<open>idleThreadSize_\<close> and returns; otherwise it goes on with
  its loop. The decrement leaves \<^verbatim>\<open>curThreadSize_\<close> at or above \<^verbatim>\<open>initThreadSize_\<close>.
\<close>

theorem idle_reclaim:
  "wake_timed True now w s =
     (if 60 * 1000000000 \<le> now - lastTime w \<and> initThreadSize s <s curThreadSize s
      then (w\<lparr>at_pc := Done\<rparr>,
            s\<lparr>threads := (threads s)(threadid w := None),
              curThreadSize := curThreadSize s - 1,
              idleThreadSize := idleThreadSize s - 1,
              trace := trace s @ [Cout ThreadExit]\<rparr>)
      else wait_loop w s)
   \<and> (initThreadSize s <s curThreadSize s \<longrightarrow> initThreadSize s \<le>s curThreadSize s - 1)"
  by (simp add: wake_timed_def duration_cast_seconds_ge reclaim_def emit_def sless_dec Let_def)

theorem idle_reclaim_witness:
  "initThreadSize cached_idle <s curThreadSize cached_idle
   \<and> initThreadSize cached_idle \<le>s curThreadSize cached_idle - 1
   \<and> wake_timed True 60000000100 \<lparr>threadid = 1, lastTime = 100, at_pc = TimedWait\<rparr> cached_idle =
       (\<lparr>threadid = 1, lastTime = 100, at_pc = Done\<rparr>,
        cached_idle\<lparr>threads := [0 \<mapsto> \<lparr>threadId = 0\<rparr>],
          curThreadSize := 1, idleThreadSize := 1,
          trace := trace cached_idle @ [Cout ThreadExit]\<rparr>)
   \<and> wake_timed True 60000000099 \<lparr>threadid = 1, lastTime = 100, at_pc = TimedWait\<rparr> cached_idle =
       (\<lparr>threadid = 1, lastTime = 100, at_pc = TimedWait\<rparr>, cached_idle)"
proof -
  have h: "initThreadSize cached_idle <s curThreadSize cached_idle"
    by (simp add: cached_idle_def pool_defs)
  show ?thesis
    using h
      idle_reclaim [of 60000000100 "\<lparr>threadid = 1, lastTime = 100, at_pc = TimedWait\<rparr>" cached_idle]
      idle_reclaim [of 60000000099 "\<lparr>threadid = 1, lastTime = 100, at_pc = TimedWait\<rparr>" cached_idle]
    by (simp add: cached_idle_def pool_defs)
qed

section \<open>Start\<close>

lemma fold_emplace:
  "fold (\<lambda>k. emplace k \<lparr>threadId = k\<rparr>) ks m k =
     (case m k of Some t \<Rightarrow> Some t
      | None \<Rightarrow> if k \<in> set ks then Some \<lparr>threadId = k\<rparr> else None)"
  by (induction ks arbitrary: m) (auto simp: emplace_def split: option.splits)

lemma sint_of_nat32: "j < 2147483648 \<Longrightarrow> sint (of_nat j :: int32) = int j"
  by (simp add: signed_of_nat signed_take_bit_int_eq_self)

lemma of_nat_sint32: "0 \<le> sint (k::int32) \<Longrightarrow> of_nat (nat (sint k)) = k"
proof -
  assume "0 \<le> sint k"
  then have "(of_nat (nat (sint k)) :: int32) = of_int (sint k)"
    by (metis of_int_of_nat_eq nat_0_le)
  then show ?thesis by simp
qed

lemma loop_count_0: "loop_count 0 n = nat (sint n)"
  by (simp add: loop_count_def)

lemma loop_count_bound: "loop_count 0 (n::int32) < 2147483648"
proof -
  have "sint n < 2147483648"
    using sint32_range [of n] by simp
  then show ?thesis
    by (simp add: loop_count_def nat_less_iff)
qed

lemma set_ids_from_0:
  "set (ids_from 0 (loop_count 0 n)) = {k. 0 \<le>s k \<and> k <s n}"
proof (intro set_eqI iffI)
  fix k
  assume "k \<in> set (ids_from 0 (loop_count 0 n))"
  then obtain j where j: "j < nat (sint n)" and k: "k = of_nat j"
    by (auto simp: ids_from_def loop_count_def)
  have "j < 2147483648"
    using j sint32_range [of n] by linarith
  then have "sint k = int j"
    unfolding k by (rule sint_of_nat32)
  then show "k \<in> {k. 0 \<le>s k \<and> k <s n}"
    using j by (simp add: word_sle_eq word_sless_alt)
next
  fix k
  assume "k \<in> {k. 0 \<le>s k \<and> k <s n}"
  then have k0: "0 \<le> sint k" and kn: "sint k < sint n"
    by (simp_all add: word_sle_eq word_sless_alt)
  have "k = of_nat (nat (sint k))"
    using of_nat_sint32 [OF k0] by simp
  moreover have "nat (sint k) < nat (sint n)"
    using k0 kn by simp
  ultimately show "k \<in> set (ids_from 0 (loop_count 0 n))"
    by (auto simp: ids_from_def loop_count_def)
qed

lemma start_fresh:
  assumes g: "generateId s = 0" and e: "threads s = Map.empty"
  shows "start s n =
     Inr (s\<lparr>isPoolRunning := True, initThreadSize := n, curThreadSize := n, idleThreadSize := n,
            threads := (\<lambda>k. if 0 \<le>s k \<and> k <s n then Some \<lparr>threadId = k\<rparr> else None),
            generateId := of_nat (loop_count 0 n),
            procs := procs s @ map (\<lambda>k. \<lparr>threadid = k, lastTime = 0, at_pc = Entry\<rparr>)
                                   (ids_from 0 (loop_count 0 n))\<rparr>)"
proof -
  have T: "started_threads s n =
             (\<lambda>k. if 0 \<le>s k \<and> k <s n then Some \<lparr>threadId = k\<rparr> else None)"
    using set_ids_from_0 [of n]
    by (auto simp: started_threads_def fold_emplace g e fun_eq_iff)
  have all: "\<forall>k \<in> set (ids_from 0 (loop_count 0 n)). started_threads s n k \<noteq> None"
    unfolding T using set_ids_from_0 [of n] by auto
  have m: "map (\<lambda>k. \<lparr>threadid = threadId (the (started_threads s n k)), lastTime = 0, at_pc = Entry\<rparr>)
               (ids_from 0 (loop_count 0 n))
           = map (\<lambda>k. \<lparr>threadid = k, lastTime = 0, at_pc = Entry\<rparr>) (ids_from 0 (loop_count 0 n))"
    unfolding T using set_ids_from_0 [of n] by (intro map_cong) auto
  show ?thesis
    unfolding start_closed using all by (simp add: m g) (simp add: T)
qed



lemma live_ids_wf_fresh:
  assumes "live_ids_wf s" and "generateId s = 0"
  shows "threads s = Map.empty"
proof (rule ext)
  fix k
  show "threads s k = None"
  proof (cases "threads s k")
    case (Some t)
    then have "0 \<le>s k \<and> k <s 0"
      using assms by (auto simp: live_ids_wf_def)
    then show ?thesis by (auto simp: word_sle_eq word_sless_alt)
  qed simp
qed

lemma started_threads_key_is_id:
  assumes "live_ids_wf s" and "started_threads s n k = Some t"
  shows "threadId t = k"
  using assms
  by (auto simp: started_threads_def fold_emplace live_ids_wf_def split: option.splits if_splits)

lemma ids_from_0_shift_eq:
  assumes "mset (ids_from 0 m) = mset (ids_from g m)" and "0 < m" and "m < 2147483648"
  shows "g = (0::int32)"
proof -
  have s: "set (ids_from 0 m) = set (ids_from g m)"
    using assms(1) by (rule mset_eq_setD)
  have "(0::int32) \<in> set (ids_from 0 m)"
    using assms(2) by (force simp: ids_from_def)
  then obtain j where j: "j < m" and gj: "g + of_nat j = 0"
    unfolding s by (auto simp: ids_from_def)
  have "g \<in> set (ids_from g m)"
    using assms(2) by (force simp: ids_from_def)
  then obtain i where i: "i < m" and gi: "g = of_nat i"
    unfolding s [symmetric] by (auto simp: ids_from_def)
  have "(of_nat (i + j) :: int32) = 0"
    using gj gi by simp
  then have "2 ^ LENGTH(32) dvd i + j"
    by (rule iffD1 [OF word_of_nat_eq_0_iff])
  then have "2 ^ 32 dvd i + j"
    by simp
  moreover have "i + j < 2 ^ 32"
    using i j assms(3) by simp
  ultimately have "i + j = 0"
    by (meson dvd_imp_le not_less zero_less_iff_neq_zero)
  then show ?thesis using gi by simp
qed

lemma launches_iff:
  assumes wf: "live_ids_wf s" and n: "0 <s n"
  shows "launches_each_new_worker_once s n \<longleftrightarrow> generateId s = 0"
proof
  assume g: "generateId s = 0"
  have e: "threads s = Map.empty"
    using live_ids_wf_fresh [OF wf g] .
  show "launches_each_new_worker_once s n"
    unfolding launches_each_new_worker_once_def start_fresh [OF g e]
    by (simp add: g comp_def)
next
  assume ok: "launches_each_new_worker_once s n"
  let ?m = "loop_count 0 n"
  let ?L = "map (\<lambda>k. \<lparr>threadid = threadId (the (started_threads s n k)),
                       lastTime = 0, at_pc = Entry\<rparr>) (ids_from 0 ?m)"
  have all: "\<forall>k \<in> set (ids_from 0 ?m). started_threads s n k \<noteq> None"
    using ok unfolding launches_each_new_worker_once_def start_closed
    by (auto split: if_splits)
  then have M: "mset (map threadid ?L) = mset (ids_from (generateId s) ?m)"
    using ok unfolding launches_each_new_worker_once_def start_closed
    by simp
  have A: "map threadid ?L = ids_from 0 ?m"
  proof -
    have "map threadid ?L = map (\<lambda>k. k) (ids_from 0 ?m)"
      unfolding map_map comp_def
    proof (intro map_cong refl)
      fix k
      assume "k \<in> set (ids_from 0 ?m)"
      then obtain t where "started_threads s n k = Some t"
        using all by auto
      then show "threadid \<lparr>threadid = threadId (the (started_threads s n k)),
                       lastTime = 0, at_pc = Entry\<rparr> = k"
        using started_threads_key_is_id [OF wf] by simp
    qed
    then show ?thesis by simp
  qed
  have eq: "mset (ids_from 0 ?m) = mset (ids_from (generateId s) ?m)"
    using M unfolding A .
  have "0 < ?m"
    using n by (simp add: loop_count_def word_sless_alt)
  then show "generateId s = 0"
    using ids_from_0_shift_eq [OF eq _ loop_count_bound] by simp
qed

text \<open>
  The well-formedness of the live ids is kept by every step that does not make the id
  counter overflow: the counter only grows, and a step on which it has not decreased has
  not wrapped around. It holds for the pool just constructed.
\<close>

lemma sint_add_nat_no_wrap:
  assumes g: "0 \<le> sint (g::int32)" and m: "m < 2147483648"
    and le: "sint g \<le> sint (g + of_nat m)"
  shows "sint (g + of_nat m) = sint g + int m"
proof -
  have e: "sint (g + of_nat m) = signed_take_bit 31 (sint g + int m)"
    using m by (simp add: sint_word_ariths sint_of_nat32)
  have "sint g + int m < 2 ^ 31"
  proof (rule ccontr)
    assume "\<not> sint g + int m < 2 ^ 31"
    then have "2 ^ 31 \<le> sint g + int m" by simp
    then have "signed_take_bit 31 (sint g + int m) \<le> sint g + int m - 2 ^ Suc 31"
      by (rule signed_take_bit_int_less_eq)
    moreover have "sint g + int m - 2 ^ Suc 31 < 0"
      using m sint32_range [of g] by simp
    ultimately show False
      using le g unfolding e by linarith
  qed
  then show ?thesis
    unfolding e using g by (intro signed_take_bit_int_eq_self) simp_all
qed

lemma worker_threads_sub:
  assumes "step s (Worker i timeout now) = Inr s'"
  shows "generateId s' = generateId s \<and> (\<forall>k t. threads s' k = Some t \<longrightarrow> threads s k = Some t)"
proof (cases "i < length (procs s)")
  case False
  then show ?thesis using assms by (simp add: step_def)
next
  case True
  then show ?thesis using assms
    by (cases "at_pc (procs s ! i)"; cases "taskQue s")
       (auto simp: step_def threadFunc_def wake_timed_def wait_loop_def claim_def reclaim_def
            exit_shutdown_def finish_def emit_def invoke_def Let_def
          split: if_splits option.splits)
qed

lemma ids_from_sint:
  assumes g: "0 \<le> sint (g::int32)" and m: "m < 2147483648"
    and le: "sint g \<le> sint (g + of_nat m)" and k: "k \<in> set (ids_from g m)"
  shows "0 \<le> sint k \<and> sint k < sint (g + of_nat m)"
proof -
  from k obtain j where j: "j < m" and kj: "k = g + of_nat j"
    by (auto simp: ids_from_def)
  have t: "sint (g + of_nat m) = sint g + int m"
    using g m le by (rule sint_add_nat_no_wrap)
  have "sint (g + of_nat j) = signed_take_bit 31 (sint g + int j)"
    using j m by (simp add: sint_word_ariths sint_of_nat32)
  also have "\<dots> = sint g + int j"
  proof (rule signed_take_bit_int_eq_self)
    show "- (2 ^ 31) \<le> sint g + int j" using g by simp
    have "sint g + int m \<le> 2147483647"
      using sint32_range [of "g + of_nat m"] unfolding t by simp
    then show "sint g + int j < 2 ^ 31" using j by simp
  qed
  finally show ?thesis
    unfolding kj t using g j by simp
qed

lemma live_ids_wf_step:
  assumes wf: "live_ids_wf s" and g0: "0 \<le>s generateId s"
    and st: "step s a = Inr s'" and mono: "generateId s \<le>s generateId s'"
  shows "live_ids_wf s' \<and> 0 \<le>s generateId s'"
proof (cases a)
  case (SetMode m)
  then show ?thesis using wf g0 st
    by (auto simp: step_def setMode_def live_ids_wf_def split: if_splits)
next
  case (SetTaskQueMaxThreshHold n)
  then show ?thesis using wf g0 st
    by (auto simp: step_def setTaskQueMaxThreshHold_def live_ids_wf_def split: if_splits)
next
  case (SetThreadSizeThreshHold n)
  then show ?thesis using wf g0 st
    by (auto simp: step_def setThreadSizeThreshHold_def emit_def live_ids_wf_def split: if_splits)
next
  case Stop
  then show ?thesis using wf g0 st
    by (auto simp: step_def ThreadPool_dtor_def emit_def live_ids_wf_def)
next
  case (Worker i timeout now)
  then show ?thesis
    using wf g0 worker_threads_sub [of s i timeout now s'] st
    by (auto simp: live_ids_wf_def)
next
  case (Start n)
  let ?m = "loop_count 0 n"
  have s': "threads s' = started_threads s n" "generateId s' = generateId s + of_nat ?m"
    using st Start by (auto simp: step_def start_closed split: if_splits)
  have g: "0 \<le> sint (generateId s)"
    using g0 by (simp add: word_sle_eq)
  have le: "sint (generateId s) \<le> sint (generateId s + of_nat ?m)"
    using mono by (simp add: s' word_sle_eq)
  note new = ids_from_sint [OF g loop_count_bound le]
  have "live_ids_wf s'"
    unfolding live_ids_wf_def s'
  proof (intro allI impI)
    fix k t
    assume kt: "started_threads s n k = Some t"
    show "threadId t = k \<and> 0 \<le>s k \<and> k <s generateId s + of_nat ?m"
    proof (cases "threads s k")
      case (Some t0)
      then have "t = t0"
        using kt by (simp add: started_threads_def fold_emplace)
      moreover have "threadId t0 = k \<and> 0 \<le> sint k \<and> sint k < sint (generateId s)"
        using wf Some by (simp add: live_ids_wf_def word_sle_eq word_sless_alt)
      ultimately show ?thesis
        using le by (simp add: word_sle_eq word_sless_alt)
    next
      case None
      then have "k \<in> set (ids_from (generateId s) ?m) \<and> t = \<lparr>threadId = k\<rparr>"
        using kt by (auto simp: started_threads_def fold_emplace split: if_splits)
      then show ?thesis
        using new [of k] by (simp add: word_sle_eq word_sless_alt)
    qed
  qed
  moreover have "0 \<le>s generateId s'"
    using g le by (simp add: s' word_sle_eq)
  ultimately show ?thesis ..
next
  case (SubmitTask func dflt)
  show ?thesis
  proof (cases "generateId s' = generateId s")
    case True
    have "threads s' = threads s"
      using st SubmitTask True
      by (cases "queue_not_full s")
         (auto simp: step_def submit_rejected_state submitTask_accepted split: if_splits)
    then show ?thesis
      using wf g0 True by (simp add: live_ids_wf_def)
  next
    case False
    then have s': "threads s' = emplace (generateId s) \<lparr>threadId = generateId s\<rparr> (threads s)"
      "generateId s' = generateId s + 1"
      using st SubmitTask
      by (cases "queue_not_full s";
          auto simp: step_def submit_rejected_state submitTask_accepted split: if_splits)+
    have g: "0 \<le> sint (generateId s)"
      using g0 by (simp add: word_sle_eq)
    have le: "sint (generateId s) \<le> sint (generateId s + of_nat 1)"
      using mono by (simp add: s' word_sle_eq)
    have t: "sint (generateId s + 1) = sint (generateId s) + 1"
      using sint_add_nat_no_wrap [OF g _ le] by simp
    have "live_ids_wf s'"
      unfolding live_ids_wf_def s'
    proof (intro allI impI)
      fix k t'
      assume kt: "emplace (generateId s) \<lparr>threadId = generateId s\<rparr> (threads s) k = Some t'"
      show "threadId t' = k \<and> 0 \<le>s k \<and> k <s generateId s + 1"
      proof (cases "threads s k")
        case (Some t0)
        then have "t' = t0"
          using kt by (auto simp: emplace_def split: option.splits if_splits)
        moreover have "threadId t0 = k \<and> 0 \<le> sint k \<and> sint k < sint (generateId s)"
          using wf Some by (simp add: live_ids_wf_def word_sle_eq word_sless_alt)
        ultimately show ?thesis
          using t by (simp add: word_sle_eq word_sless_alt)
      next
        case None
        then have "k = generateId s \<and> t' = \<lparr>threadId = generateId s\<rparr>"
          using kt by (auto simp: emplace_def split: option.splits if_splits)
        then show ?thesis
          using g t by (simp add: word_sle_eq word_sless_alt)
      qed
    qed
    moreover have "0 \<le>s generateId s'"
      using g t by (simp add: s' word_sle_eq)
    ultimately show ?thesis ..
  qed
qed

lemma live_ids_wf_ctor: "live_ids_wf ThreadPool_ctor \<and> 0 \<le>s generateId ThreadPool_ctor"
  by (simp add: live_ids_wf_def ThreadPool_ctor_def)

lemma live_ids_wf_next_fresh: "live_ids_wf s \<Longrightarrow> threads s (generateId s) = None"
proof (cases "threads s (generateId s)")
  case (Some t)
  assume "live_ids_wf s"
  then have "generateId s <s generateId s"
    using Some by (auto simp: live_ids_wf_def)
  then show ?thesis by (simp add: word_sless_alt)
qed simp

lemma stopped_one_reachable:
  "run ThreadPool_ctor [Start 1, Stop, Worker 0 False 10, Worker 0 False 10] = Inr stopped_one"
  by (simp add: pool_defs stopped_one_def)

lemma prestart_spawned_reachable:
  "run ThreadPool_ctor [SetMode MODE_CACHED, SubmitTask (\<lambda>_. 5) 0] = Inr prestart_spawned"
  by (simp add: pool_defs prestart_spawned_def)

text \<open>
  C7, as the claim states it, fails: \<^verbatim>\<open>start(1)\<close> on the running cached pool of two idle
  workers returns normally, has overwritten the three counters with 1, has constructed a
  third \<^verbatim>\<open>Thread\<close> without launching it and has launched a second thread for worker 0.
\<close>

theorem start_twice_resets:
  "isPoolRunning cached_idle
   \<and> start cached_idle 1 =
       Inr (cached_idle
             \<lparr>initThreadSize := 1, curThreadSize := 1, idleThreadSize := 1,
              threads := [0 \<mapsto> \<lparr>threadId = 0\<rparr>, 1 \<mapsto> \<lparr>threadId = 1\<rparr>, 2 \<mapsto> \<lparr>threadId = 2\<rparr>],
              generateId := 3,
              procs := procs cached_idle @ [\<lparr>threadid = 0, lastTime = 0, at_pc = Entry\<rparr>]\<rparr>)"
  by (simp add: pool_defs cached_idle_def)

text \<open>
  C7, amended: \<^verbatim>\<open>start\<close> on a pool that is already running is not rejected. It never reads
  the running flag: it does what it does on the same pool with the flag cleared, and when it
  returns, the flag is set and \<^verbatim>\<open>initThreadSize_\<close>, \<^verbatim>\<open>curThreadSize_\<close> and \<^verbatim>\<open>idleThreadSize_\<close>
  all hold the argument.
\<close>

theorem start_ignores_running:
  "isPoolRunning s \<longrightarrow>
     start s n = start (s\<lparr>isPoolRunning := False\<rparr>) n
   \<and> (start s n = Inr s' \<longrightarrow>
        isPoolRunning s' \<and> initThreadSize s' = n \<and> curThreadSize s' = n
      \<and> idleThreadSize s' = n)"
proof (intro impI conjI)
  show "start s n = start (s\<lparr>isPoolRunning := False\<rparr>) n"
    by (simp add: start_def)
next
  assume "start s n = Inr s'"
  then have "isPoolRunning s' \<and> initThreadSize s' = n \<and> curThreadSize s' = n
      \<and> idleThreadSize s' = n"
    by (auto simp: start_closed split: if_splits)
  then show "isPoolRunning s'" and "initThreadSize s' = n" and "curThreadSize s' = n"
    and "idleThreadSize s' = n"
    by simp_all
qed

theorem start_ignores_running_witness:
  "isPoolRunning cached_idle
   \<and> start cached_idle 1 = start (cached_idle\<lparr>isPoolRunning := False\<rparr>) 1
   \<and> start cached_idle 1 =
       Inr (cached_idle
             \<lparr>initThreadSize := 1, curThreadSize := 1, idleThreadSize := 1,
              threads := [0 \<mapsto> \<lparr>threadId = 0\<rparr>, 1 \<mapsto> \<lparr>threadId = 1\<rparr>, 2 \<mapsto> \<lparr>threadId = 2\<rparr>],
              generateId := 3,
              procs := procs cached_idle @ [\<lparr>threadid = 0, lastTime = 0, at_pc = Entry\<rparr>]\<rparr>)
   \<and> curThreadSize cached_idle = 2"
proof -
  have r: "isPoolRunning cached_idle" and c: "curThreadSize cached_idle = 2"
    by (simp_all add: cached_idle_def ThreadPool_ctor_def)
  have e: "start cached_idle 1 =
       Inr (cached_idle
             \<lparr>initThreadSize := 1, curThreadSize := 1, idleThreadSize := 1,
              threads := [0 \<mapsto> \<lparr>threadId = 0\<rparr>, 1 \<mapsto> \<lparr>threadId = 1\<rparr>, 2 \<mapsto> \<lparr>threadId = 2\<rparr>],
              generateId := 3,
              procs := procs cached_idle @ [\<lparr>threadid = 0, lastTime = 0, at_pc = Entry\<rparr>]\<rparr>)"
    by (simp add: pool_defs cached_idle_def)
  show ?thesis
    using start_ignores_running [of cached_idle 1] r c e by blast
qed

text \<open>
  C8 fails on the code where a \<^verbatim>\<open>Thread\<close> has been constructed before \<^verbatim>\<open>start\<close> is called.
  The second loop of \<^verbatim>\<open>start\<close> launches \<^verbatim>\<open>threads_[i]\<close> for the loop index \<open>i\<close>, where
  \<^verbatim>\<open>submitTask\<close> launches \<^verbatim>\<open>threads_[threadId]\<close> for the id of the worker it has just
  constructed. On the cached pool that is not running and has launched worker 0 for a
  submission, \<^verbatim>\<open>start(1)\<close> constructs one worker, with id 1, and stores it in the live set,
  but the one thread it launches is a second thread for worker 0: the worker it has
  constructed is never started.
\<close>

theorem start_launches_old_worker:
  "run ThreadPool_ctor [SetMode MODE_CACHED, SubmitTask (\<lambda>_. 5) 0] = Inr prestart_spawned
   \<and> \<not> isPoolRunning prestart_spawned
   \<and> start prestart_spawned 1 =
       Inr (prestart_spawned
             \<lparr>isPoolRunning := True, initThreadSize := 1,
              curThreadSize := 1, idleThreadSize := 1,
              threads := [0 \<mapsto> \<lparr>threadId = 0\<rparr>, 1 \<mapsto> \<lparr>threadId = 1\<rparr>],
              generateId := 2,
              procs := [\<lparr>threadid = 0, lastTime = 0, at_pc = Entry\<rparr>,
                        \<lparr>threadid = 0, lastTime = 0, at_pc = Entry\<rparr>]\<rparr>)"
  by (simp add: pool_defs prestart_spawned_def)

text \<open>
  Where no \<^verbatim>\<open>Thread\<close> has been constructed before (the id counter is 0 and the live set is
  empty), the loop indices of \<^verbatim>\<open>start\<close> are the ids of the workers it constructs: for
  \<open>n \<ge> 0\<close> it sets the running flag and the three counters, makes the workers with ids
  \<open>0, ..., n - 1\<close> the live set and launches one thread for each of them, in this order.
  Without an argument, \<^verbatim>\<open>start\<close> takes the hardware concurrency of the host for \<open>n\<close>.
\<close>

lemma start_fresh_pool:
  "\<not> isPoolRunning s \<and> 0 \<le>s n \<and> generateId s = 0 \<and> threads s = Map.empty \<longrightarrow>
     start s n =
       Inr (s\<lparr>isPoolRunning := True, initThreadSize := n, curThreadSize := n,
              idleThreadSize := n,
              threads := (\<lambda>k. if 0 \<le>s k \<and> k <s n then Some \<lparr>threadId = k\<rparr> else None),
              generateId := n,
              procs := procs s @ map (\<lambda>k. \<lparr>threadid = k, lastTime = 0, at_pc = Entry\<rparr>)
                                     (ids_from 0 (nat (sint n)))\<rparr>)
   \<and> int (length (ids_from 0 (nat (sint n)))) = sint n
   \<and> distinct (ids_from 0 (nat (sint n)))
   \<and> set (ids_from 0 (nat (sint n))) = {k. 0 \<le>s k \<and> k <s n}
   \<and> start_default s n = start s n"
proof (intro impI conjI; (elim conjE)?)
  assume n: "0 \<le>s n" and g: "generateId s = 0" and e: "threads s = Map.empty"
  have "of_nat (loop_count 0 n) = n"
    using n of_nat_sint32 [of n] by (simp add: loop_count_0 word_sle_eq)
  then show "start s n =
       Inr (s\<lparr>isPoolRunning := True, initThreadSize := n, curThreadSize := n,
              idleThreadSize := n,
              threads := (\<lambda>k. if 0 \<le>s k \<and> k <s n then Some \<lparr>threadId = k\<rparr> else None),
              generateId := n,
              procs := procs s @ map (\<lambda>k. \<lparr>threadid = k, lastTime = 0, at_pc = Entry\<rparr>)
                                     (ids_from 0 (nat (sint n)))\<rparr>)"
    unfolding start_fresh [OF g e] by (simp add: loop_count_0)
  show "int (length (ids_from 0 (nat (sint n)))) = sint n"
    using n by (simp add: ids_from_def word_sle_eq)
  show "distinct (ids_from 0 (nat (sint n)))"
  proof -
    have "inj_on (of_nat :: nat \<Rightarrow> int32) {0..<nat (sint n)}"
    proof (rule inj_onI)
      fix i j
      assume i: "i \<in> {0..<nat (sint n)}" and j: "j \<in> {0..<nat (sint n)}"
        and eq: "(of_nat i :: int32) = of_nat j"
      have "i < 2147483648" and "j < 2147483648"
        using i j loop_count_bound [of n] by (simp_all add: loop_count_0)
      then have "int i = sint (of_nat i :: int32)" and "int j = sint (of_nat j :: int32)"
        by (simp_all add: sint_of_nat32)
      then show "i = j" using eq by simp
    qed
    then show ?thesis
      by (simp add: ids_from_def distinct_map)
  qed
  show "set (ids_from 0 (nat (sint n))) = {k. 0 \<le>s k \<and> k <s n}"
    using set_ids_from_0 [of n] by (simp add: loop_count_0)
  show "start_default s n = start s n"
    by (simp add: start_default_def)
qed

lemma start_fresh_pool_at_two:
  "\<not> isPoolRunning (ThreadPool_ctor :: nat state) \<and> (0::int32) \<le>s 2
   \<and> generateId (ThreadPool_ctor :: nat state) = 0
   \<and> threads (ThreadPool_ctor :: nat state) = Map.empty
   \<and> start (ThreadPool_ctor :: nat state) 2 =
       Inr (ThreadPool_ctor
             \<lparr>isPoolRunning := True, initThreadSize := 2, curThreadSize := 2,
              idleThreadSize := 2,
              threads := (\<lambda>k. if 0 \<le>s k \<and> k <s 2 then Some \<lparr>threadId = k\<rparr> else None),
              generateId := 2,
              procs := [\<lparr>threadid = 0, lastTime = 0, at_pc = Entry\<rparr>,
                        \<lparr>threadid = 1, lastTime = 0, at_pc = Entry\<rparr>]\<rparr>)"
proof -
  have h: "\<not> isPoolRunning (ThreadPool_ctor :: nat state) \<and> (0::int32) \<le>s 2
   \<and> generateId (ThreadPool_ctor :: nat state) = 0
   \<and> threads (ThreadPool_ctor :: nat state) = Map.empty"
    by (simp add: ThreadPool_ctor_def word_sle_eq)
  have i: "ids_from 0 (nat (sint (2::int32))) = [0, 1]"
    by (simp add: ids_from_def upt_conv_Cons)
  have p: "procs (ThreadPool_ctor :: nat state) = []"
    by (simp add: ThreadPool_ctor_def)
  show ?thesis
    using h start_fresh_pool [of "ThreadPool_ctor :: nat state" 2] unfolding i p by simp
qed

text \<open>
  C10: \<^verbatim>\<open>start(n)\<close> launches the threads stored under the loop indices \<open>0, ..., n - 1\<close>, while
  the workers it constructs get the next \<open>n\<close> values of the id counter. For a start that
  constructs workers (\<open>n \<ge> 1\<close>), in a state where every live worker is stored under its own
  id, an id the counter has handed out, it launches each worker it constructs exactly once
  if and only if the worker-id counter was 0 when it was called.
\<close>

theorem start_launches_new_workers_iff:
  "live_ids_wf s \<and> 0 <s n \<longrightarrow>
     (launches_each_new_worker_once s n \<longleftrightarrow> generateId s = 0)"
  using launches_iff by blast

theorem start_launches_new_workers_iff_witness:
  "live_ids_wf (ThreadPool_ctor :: nat state) \<and> (0::int32) <s 2
   \<and> launches_each_new_worker_once (ThreadPool_ctor :: nat state) 2
   \<and> generateId (ThreadPool_ctor :: nat state) = 0
   \<and> live_ids_wf prestart_spawned \<and> (0::int32) <s 1
   \<and> \<not> launches_each_new_worker_once prestart_spawned 1
   \<and> generateId prestart_spawned = 1"
proof -
  have a: "live_ids_wf (ThreadPool_ctor :: nat state) \<and> (0::int32) <s 2
           \<and> generateId (ThreadPool_ctor :: nat state) = 0"
    by (simp add: live_ids_wf_def ThreadPool_ctor_def word_sless_alt)
  have b: "live_ids_wf prestart_spawned \<and> (0::int32) <s 1 \<and> generateId prestart_spawned = 1"
    by (auto simp: live_ids_wf_def prestart_spawned_def ThreadPool_ctor_def word_sless_alt
          word_sle_eq split: if_splits)
  have c: "generateId prestart_spawned \<noteq> 0"
    using b by simp
  show ?thesis
    using a b c
      start_launches_new_workers_iff [of "ThreadPool_ctor :: nat state" 2]
      start_launches_new_workers_iff [of prestart_spawned 1]
    by blast
qed

section \<open>Bounds on the counters\<close>




lemma idle_not_busy [simp]: "idle_pc p \<Longrightarrow> \<not> busy_pc p"
  by (cases p) simp_all








lemma invoke_fields [simp]:
  "procs (invoke a s) = procs s"
  "taskQue (invoke a s) = taskQue s"
  "taskSize (invoke a s) = taskSize s"
  "taskQueMaxThreshHold (invoke a s) = taskQueMaxThreshHold s"
  "curThreadSize (invoke a s) = curThreadSize s"
  "idleThreadSize (invoke a s) = idleThreadSize s"
  "threadSizeThreshHold (invoke a s) = threadSizeThreshHold s"
  "poolMode (invoke a s) = poolMode s"
  by (simp_all add: invoke_def split: option.splits)























lemma restarted_reachable:
  "run prestart_spawned [Start 0, Worker 0 False 10, Worker 0 False 10] = Inr restarted"
  by (simp add: pool_defs prestart_spawned_def restarted_def)










section \<open>Workers after shutdown has begun\<close>






end
